theory Spec2Isabelle
  imports
    Complex_Main
    "HOL-Library.Log_Nat"
    "HOL-Library.Product_Lexorder"
    "HOL-Library.Multiset"
    "HOL-Library.Sublist"
begin

section \<open>Python values used by the program\<close>

subsection \<open>Strings\<close>

text \<open>
  A Python \<open>str\<close> is a sequence of code points. The model is \<^typ>\<open>string\<close>, whose
  characters are the code points below 256. On these \<open>str.lower()\<close> maps \<open>A\<close>..\<open>Z\<close> and the
  Latin-1 capitals 192..222 (without the multiplication sign 215) to the code point 32 above
  and leaves every other character alone; \<open>str.strip()\<close> removes, at both ends, the characters
  for which \<open>str.isspace()\<close> holds: 9..13, 28..32, 133 and 160.
\<close>

definition char_lower :: "char \<Rightarrow> char" where
  "char_lower c =
     (let n = (of_char c :: nat)
      in if (65 \<le> n \<and> n \<le> 90) \<or> (192 \<le> n \<and> n \<le> 222 \<and> n \<noteq> 215)
         then char_of (n + 32) else c)"

definition lower :: "string \<Rightarrow> string" where
  "lower s = map char_lower s"



text \<open>The substring test \<open>needle in haystack\<close>.\<close>

fun contains :: "string \<Rightarrow> string \<Rightarrow> bool" where
  "contains needle [] = (needle = [])"
| "contains needle (c # cs) =
     (take (length needle) (c # cs) = needle \<or> contains needle cs)"

subsection \<open>Floats\<close>

text \<open>
  A finite Python \<open>float\<close> is a binary64 number, hence a rational; the model keeps its exact
  value in \<^typ>\<open>rat\<close>. \<open>fl q\<close> is the binary64 nearest to \<open>q\<close> (53 significant bits, ties to the
  even significand), which is what one IEEE operation returns for the exact result \<open>q\<close>.
  Overflow and subnormals are left out: every quotient the program forms is 0 or lies
  between \<open>2 / (len a + len b)\<close> and 2.
\<close>

definition round_half_even :: "rat \<Rightarrow> int" where
  "round_half_even x =
     (let f = \<lfloor>x\<rfloor>; d = x - of_int f
      in if d < 1 / 2 then f else if 1 / 2 < d then f + 1 else if even f then f else f + 1)"

definition binade :: "rat \<Rightarrow> int" where
  \<comment> \<open>the exponent \<open>e\<close> with \<open>2^e \<le> q < 2^(e+1)\<close>, for \<open>q > 0\<close>\<close>
  "binade q =
     (case quotient_of q of (n, d) \<Rightarrow>
        let k = bitlen n - bitlen d in if power_int 2 k \<le> q then k else k - 1)"

definition fl :: "rat \<Rightarrow> rat" where
  "fl q =
     (if q \<le> 0 then 0
      else let s = 52 - binade q
           in of_int (round_half_even (q * power_int 2 s)) * power_int 2 (- s))"

definition fadd :: "rat \<Rightarrow> rat \<Rightarrow> rat" where
  "fadd x y = fl (x + y)"

definition fdiv :: "rat \<Rightarrow> rat \<Rightarrow> rat" where
  "fdiv x y = fl (x / y)"

text \<open>
  \<open>round(x, 2)\<close> on a float: the exact value of \<open>x\<close> is rounded to two decimals, ties to
  even, and the decimal is converted back to the nearest float.
\<close>

definition round2 :: "rat \<Rightarrow> rat" where
  "round2 x = fl (of_int (round_half_even (x * 100)) / 100)"

section \<open>\<open>difflib.SequenceMatcher(None, a, b).ratio()\<close>\<close>

text \<open>
  The standard library's matcher, as \<open>calculate_similarity\<close> constructs it: \<open>isjunk\<close> is
  \<open>None\<close>, \<open>autojunk\<close> keeps its default \<open>True\<close>.

  \<open>__chain_b\<close> indexes the second sequence: \<open>b2j[x]\<close> lists, ascending, the positions of \<open>x\<close>
  in \<open>b\<close>. No element is junk (\<open>bjunk\<close> stays empty), and when \<open>b\<close> has at least 200 elements
  those that occur more than \<open>len(b) // 100 + 1\<close> times are deleted from \<open>b2j\<close> as popular.
  \<open>b2j b x\<close> is the value of \<open>b2j.get(x, [])\<close> afterwards.
\<close>

definition popular :: "'a list \<Rightarrow> 'a \<Rightarrow> bool" where
  "popular b elt \<longleftrightarrow> 200 \<le> length b \<and> length b div 100 + 1 < count_list b elt"

definition b2j :: "'a list \<Rightarrow> 'a \<Rightarrow> nat list" where
  "b2j b elt = (if popular b elt then [] else filter (\<lambda>j. b ! j = elt) [0..<length b])"

definition isbjunk :: "'a \<Rightarrow> bool" where
  "isbjunk elt = False"

type_synonym match = "nat \<times> nat \<times> nat"

text \<open>
  \<open>find_longest_match\<close>. The inner \<open>for j in b2j.get(a[i], nothing)\<close>, with its \<open>continue\<close>
  and \<open>break\<close>; \<open>j2len\<close> is the dictionary of the previous row, the state is
  \<open>(newj2len, besti, bestj, bestsize)\<close>. \<open>j2len.get(j-1, 0)\<close> at \<open>j = 0\<close> asks for the key
  \<open>-1\<close>, which is never present.
\<close>

fun flm_inner ::
  "(nat \<rightharpoonup> nat) \<Rightarrow> nat \<Rightarrow> nat \<Rightarrow> nat \<Rightarrow> nat list \<Rightarrow>
   (nat \<rightharpoonup> nat) \<times> match \<Rightarrow> (nat \<rightharpoonup> nat) \<times> match" where
  "flm_inner j2len i blo bhi [] st = st"
| "flm_inner j2len i blo bhi (j # js) (newj2len, besti, bestj, bestsize) =
     (if j < blo then flm_inner j2len i blo bhi js (newj2len, besti, bestj, bestsize)
      else if bhi \<le> j then (newj2len, besti, bestj, bestsize)
      else
        let k = (if j = 0 then 0 else case j2len (j - 1) of None \<Rightarrow> 0 | Some v \<Rightarrow> v) + 1
        in if bestsize < k
           then flm_inner j2len i blo bhi js (newj2len(j \<mapsto> k), i + 1 - k, j + 1 - k, k)
           else flm_inner j2len i blo bhi js (newj2len(j \<mapsto> k), besti, bestj, bestsize))"

text \<open>The outer \<open>for i in range(alo, ahi)\<close>; the state is \<open>(j2len, besti, bestj, bestsize)\<close>.\<close>

fun flm_outer ::
  "'a list \<Rightarrow> 'a list \<Rightarrow> nat \<Rightarrow> nat \<Rightarrow> nat list \<Rightarrow> (nat \<rightharpoonup> nat) \<times> match \<Rightarrow> match" where
  "flm_outer a b blo bhi [] (j2len, best) = best"
| "flm_outer a b blo bhi (i # is) (j2len, best) =
     (case flm_inner j2len i blo bhi (b2j b (a ! i)) (Map.empty, best) of
        (newj2len, best') \<Rightarrow> flm_outer a b blo bhi is (newj2len, best'))"

text \<open>
  The four \<open>while\<close> loops that extend the best block: first over elements that are not
  junk, then over junk ones. \<open>junk\<close> is the value \<open>isbjunk\<close> must have for the loop to go on.
\<close>

function extend_left :: "'a list \<Rightarrow> 'a list \<Rightarrow> nat \<Rightarrow> nat \<Rightarrow> bool \<Rightarrow> match \<Rightarrow> match" where
  "extend_left a b alo blo junk (besti, bestj, bestsize) =
     (if alo < besti \<and> blo < bestj \<and> isbjunk (b ! (bestj - 1)) = junk
         \<and> a ! (besti - 1) = b ! (bestj - 1)
      then extend_left a b alo blo junk (besti - 1, bestj - 1, bestsize + 1)
      else (besti, bestj, bestsize))"
  by pat_completeness auto
termination
  by (relation "measure (\<lambda>(a, b, alo, blo, junk, besti, bestj, bestsize). besti)") auto

function extend_right :: "'a list \<Rightarrow> 'a list \<Rightarrow> nat \<Rightarrow> nat \<Rightarrow> bool \<Rightarrow> match \<Rightarrow> match" where
  "extend_right a b ahi bhi junk (besti, bestj, bestsize) =
     (if besti + bestsize < ahi \<and> bestj + bestsize < bhi \<and> isbjunk (b ! (bestj + bestsize)) = junk
         \<and> a ! (besti + bestsize) = b ! (bestj + bestsize)
      then extend_right a b ahi bhi junk (besti, bestj, bestsize + 1)
      else (besti, bestj, bestsize))"
  by pat_completeness auto
termination
  by (relation "measure (\<lambda>(a, b, ahi, bhi, junk, besti, bestj, bestsize). ahi - (besti + bestsize))")
    auto

definition find_longest_match :: "'a list \<Rightarrow> 'a list \<Rightarrow> nat \<Rightarrow> nat \<Rightarrow> nat \<Rightarrow> nat \<Rightarrow> match" where
  "find_longest_match a b alo ahi blo bhi =
     extend_right a b ahi bhi True
       (extend_left a b alo blo True
         (extend_right a b ahi bhi False
           (extend_left a b alo blo False
             (flm_outer a b blo bhi [alo..<ahi] (Map.empty, alo, blo, 0)))))"

text \<open>
  Where the block found lies: inside the box it was searched in. Python's \<open>i-k+1\<close> and
  \<open>j-k+1\<close> are never negative, so the natural-number subtraction of the model loses nothing.
\<close>

lemma flm_inner_bounds:
  assumes "flm_inner j2len i blo bhi js (new, bi, bj, bs) = (new', bi', bj', bs')"
    and "\<forall>j v. j2len j = Some v \<longrightarrow> v + alo \<le> i \<and> v + blo \<le> j + 1"
    and "alo \<le> i"
    and "\<forall>j v. new j = Some v \<longrightarrow> v + alo \<le> i + 1 \<and> v + blo \<le> j + 1"
    and "alo \<le> bi \<and> bi + bs \<le> i + 1 \<and> blo \<le> bj \<and> bj + bs \<le> max blo bhi"
  shows "(\<forall>j v. new' j = Some v \<longrightarrow> v + alo \<le> i + 1 \<and> v + blo \<le> j + 1)
         \<and> alo \<le> bi' \<and> bi' + bs' \<le> i + 1 \<and> blo \<le> bj' \<and> bj' + bs' \<le> max blo bhi"
  using assms
proof (induction js arbitrary: new bi bj bs)
  case Nil
  then show ?case by simp
next
  case (Cons j js)
  show ?case
  proof (cases "j < blo")
    case True
    with Cons.prems(1) have "flm_inner j2len i blo bhi js (new, bi, bj, bs) = (new', bi', bj', bs')"
      by simp
    from Cons.IH [OF this Cons.prems(2,3,4,5)] show ?thesis .
  next
    case lo: False
    show ?thesis
    proof (cases "bhi \<le> j")
      case True
      with lo Cons.prems(1) have "new' = new" "bi' = bi" "bj' = bj" "bs' = bs"
        by simp_all
      with Cons.prems(4,5) show ?thesis by simp
    next
      case hi: False
      define k where "k = (if j = 0 then 0 else case j2len (j - 1) of None \<Rightarrow> 0 | Some v \<Rightarrow> v) + 1"
      have k: "k + alo \<le> i + 1 \<and> k + blo \<le> j + 1 \<and> 0 < k"
      proof (cases "j = 0")
        case True
        with lo Cons.prems(3) show ?thesis by (simp add: k_def)
      next
        case False
        show ?thesis
        proof (cases "j2len (j - 1)")
          case None
          with False lo Cons.prems(3) show ?thesis by (simp add: k_def)
        next
          case (Some v)
          with Cons.prems(2) have "v + alo \<le> i \<and> v + blo \<le> j - 1 + 1" by blast
          with False Some show ?thesis by (simp add: k_def)
        qed
      qed
      have new: "\<forall>j' v. (new(j \<mapsto> k)) j' = Some v \<longrightarrow> v + alo \<le> i + 1 \<and> v + blo \<le> j' + 1"
        using Cons.prems(4) k by auto
      show ?thesis
      proof (cases "bs < k")
        case True
        with lo hi Cons.prems(1)
        have run: "flm_inner j2len i blo bhi js (new(j \<mapsto> k), i + 1 - k, j + 1 - k, k)
                   = (new', bi', bj', bs')"
          by (simp add: k_def Let_def)
        have "alo \<le> i + 1 - k \<and> i + 1 - k + k \<le> i + 1 \<and> blo \<le> j + 1 - k
              \<and> j + 1 - k + k \<le> max blo bhi"
          using k hi by auto
        from Cons.IH [OF run Cons.prems(2,3) new this] show ?thesis .
      next
        case False
        with lo hi Cons.prems(1)
        have run: "flm_inner j2len i blo bhi js (new(j \<mapsto> k), bi, bj, bs) = (new', bi', bj', bs')"
          by (simp add: k_def Let_def)
        from Cons.IH [OF run Cons.prems(2,3) new Cons.prems(5)] show ?thesis .
      qed
    qed
  qed
qed

lemma flm_outer_bounds:
  assumes "flm_outer a b blo bhi [i..<ahi] (m, bi, bj, bs) = (bi', bj', bs')"
    and "alo \<le> i"
    and "\<forall>j v. m j = Some v \<longrightarrow> v + alo \<le> i \<and> v + blo \<le> j + 1"
    and "alo \<le> bi \<and> bi + bs \<le> i \<and> blo \<le> bj \<and> bj + bs \<le> max blo bhi"
  shows "alo \<le> bi' \<and> bi' + bs' \<le> max i ahi \<and> blo \<le> bj' \<and> bj' + bs' \<le> max blo bhi"
  using assms
proof (induction "ahi - i" arbitrary: i m bi bj bs)
  case 0
  then show ?case by simp
next
  case (Suc n)
  then have lt: "i < ahi" by simp
  obtain new' ci cj cs where
    row: "flm_inner m i blo bhi (b2j b (a ! i)) (Map.empty, bi, bj, bs) = (new', ci, cj, cs)"
    by (metis prod_cases4)
  have "alo \<le> bi \<and> bi + bs \<le> i + 1 \<and> blo \<le> bj \<and> bj + bs \<le> max blo bhi"
    using Suc.prems(4) by simp
  from flm_inner_bounds [OF row Suc.prems(3) Suc.prems(2) _ this]
  have after: "(\<forall>j v. new' j = Some v \<longrightarrow> v + alo \<le> i + 1 \<and> v + blo \<le> j + 1)
      \<and> alo \<le> ci \<and> ci + cs \<le> i + 1 \<and> blo \<le> cj \<and> cj + cs \<le> max blo bhi"
    by simp
  have rest: "flm_outer a b blo bhi [Suc i..<ahi] (new', ci, cj, cs) = (bi', bj', bs')"
    using Suc.prems(1) lt row by (simp add: upt_conv_Cons)
  have "alo \<le> bi' \<and> bi' + bs' \<le> max (Suc i) ahi \<and> blo \<le> bj' \<and> bj' + bs' \<le> max blo bhi"
  proof (rule Suc.hyps(1) [OF _ rest])
    show "n = ahi - Suc i" using Suc.hyps(2) by simp
    show "alo \<le> Suc i" using Suc.prems(2) by simp
    show "\<forall>j v. new' j = Some v \<longrightarrow> v + alo \<le> Suc i \<and> v + blo \<le> j + 1"
      using after by simp
    show "alo \<le> ci \<and> ci + cs \<le> Suc i \<and> blo \<le> cj \<and> cj + cs \<le> max blo bhi"
      using after by simp
  qed
  with lt show ?case by simp
qed

lemma extend_left_bounds:
  assumes "extend_left a b alo blo junk (bi, bj, bs) = (bi', bj', bs')"
    and "alo \<le> bi" and "blo \<le> bj"
  shows "alo \<le> bi' \<and> blo \<le> bj' \<and> bi' + bs' = bi + bs \<and> bj' + bs' = bj + bs"
  using assms
proof (induction a b alo blo junk "(bi, bj, bs)" arbitrary: bi bj bs rule: extend_left.induct)
  case (1 a b alo blo junk bi bj bs)
  show ?case
  proof (cases "alo < bi \<and> blo < bj \<and> isbjunk (b ! (bj - 1)) = junk \<and> a ! (bi - 1) = b ! (bj - 1)")
    case True
    with "1.prems"(1)
    have step: "extend_left a b alo blo junk (bi - 1, bj - 1, bs + 1) = (bi', bj', bs')"
      by simp
    have le: "alo \<le> bi - 1" "blo \<le> bj - 1"
      using True by auto
    from "1.hyps" [OF True step le] True show ?thesis by simp
  next
    case False
    with "1.prems" show ?thesis by auto
  qed
qed

lemma extend_right_bounds:
  assumes "extend_right a b ahi bhi junk (bi, bj, bs) = (bi', bj', bs')"
    and "bi + bs \<le> ma" and "ahi \<le> ma" and "bj + bs \<le> mb" and "bhi \<le> mb"
  shows "bi' = bi \<and> bj' = bj \<and> bs \<le> bs' \<and> bi' + bs' \<le> ma \<and> bj' + bs' \<le> mb"
  using assms
proof (induction a b ahi bhi junk "(bi, bj, bs)" arbitrary: bi bj bs rule: extend_right.induct)
  case (1 a b ahi bhi junk bi bj bs)
  show ?case
  proof (cases "bi + bs < ahi \<and> bj + bs < bhi \<and> isbjunk (b ! (bj + bs)) = junk
                \<and> a ! (bi + bs) = b ! (bj + bs)")
    case True
    with "1.prems"(1)
    have "extend_right a b ahi bhi junk (bi, bj, bs + 1) = (bi', bj', bs')"
      by simp
    from "1.hyps" [OF True this] True "1.prems"(3,5) show ?thesis by simp
  next
    case False
    with "1.prems" show ?thesis by auto
  qed
qed

lemma find_longest_match_bounds:
  assumes "find_longest_match a b alo ahi blo bhi = (i, j, k)"
  shows "alo \<le> i \<and> i + k \<le> max alo ahi \<and> blo \<le> j \<and> j + k \<le> max blo bhi"
proof -
  obtain i0 j0 k0 where
    m0: "flm_outer a b blo bhi [alo..<ahi] (Map.empty, alo, blo, 0) = (i0, j0, k0)"
    by (metis prod_cases3)
  obtain i1 j1 k1 where m1: "extend_left a b alo blo False (i0, j0, k0) = (i1, j1, k1)"
    by (metis prod_cases3)
  obtain i2 j2 k2 where m2: "extend_right a b ahi bhi False (i1, j1, k1) = (i2, j2, k2)"
    by (metis prod_cases3)
  obtain i3 j3 k3 where m3: "extend_left a b alo blo True (i2, j2, k2) = (i3, j3, k3)"
    by (metis prod_cases3)
  have m4: "extend_right a b ahi bhi True (i3, j3, k3) = (i, j, k)"
    using assms m0 m1 m2 m3 by (simp add: find_longest_match_def)
  have b0: "alo \<le> i0 \<and> i0 + k0 \<le> max alo ahi \<and> blo \<le> j0 \<and> j0 + k0 \<le> max blo bhi"
    using flm_outer_bounds [OF m0, of alo] by simp
  have b1: "alo \<le> i1 \<and> blo \<le> j1 \<and> i1 + k1 = i0 + k0 \<and> j1 + k1 = j0 + k0"
    using extend_left_bounds [OF m1] b0 by simp
  have b2: "i2 = i1 \<and> j2 = j1 \<and> k1 \<le> k2 \<and> i2 + k2 \<le> max alo ahi \<and> j2 + k2 \<le> max blo bhi"
    using extend_right_bounds [OF m2, of "max alo ahi" "max blo bhi"] b0 b1 by simp
  have b3: "alo \<le> i3 \<and> blo \<le> j3 \<and> i3 + k3 = i2 + k2 \<and> j3 + k3 = j2 + k2"
    using extend_left_bounds [OF m3] b1 b2 by simp
  have b4: "i = i3 \<and> j = j3 \<and> k3 \<le> k \<and> i + k \<le> max alo ahi \<and> j + k \<le> max blo bhi"
    using extend_right_bounds [OF m4, of "max alo ahi" "max blo bhi"] b2 b3 by simp
  from b3 b4 show ?thesis by simp
qed

text \<open>
  \<open>get_matching_blocks\<close>. The work list \<open>queue\<close> is used as a stack (\<open>queue.pop()\<close> takes
  the entry appended last); the model keeps its top at the head of the list.
\<close>

function gmb_loop ::
  "'a list \<Rightarrow> 'a list \<Rightarrow> (nat \<times> nat \<times> nat \<times> nat) list \<Rightarrow> match list \<Rightarrow> match list" where
  "gmb_loop a b [] matching_blocks = matching_blocks"
| "gmb_loop a b ((alo, ahi, blo, bhi) # queue) matching_blocks =
     (case find_longest_match a b alo ahi blo bhi of
        (i, j, k) \<Rightarrow>
          if k \<noteq> 0 then
            let queue1 = (if alo < i \<and> blo < j then (alo, i, blo, j) # queue else queue);
                queue2 = (if i + k < ahi \<and> j + k < bhi
                          then (i + k, ahi, j + k, bhi) # queue1 else queue1)
            in gmb_loop a b queue2 (matching_blocks @ [(i, j, k)])
          else gmb_loop a b queue matching_blocks)"
  by pat_completeness auto
termination
proof (relation "measure (\<lambda>(a, b, queue, matching_blocks).
                   sum_list (map (\<lambda>(alo, ahi, blo, bhi). 2 * (ahi - alo) + 1) queue))",
       goal_cases)
  case 1
  show ?case by simp
next
  case (2 a b alo ahi blo bhi queue matching_blocks i jk j k queue1 queue2)
  then have flm: "find_longest_match a b alo ahi blo bhi = (i, j, k)" and k: "k \<noteq> 0"
    by simp_all
  from find_longest_match_bounds [OF flm] k
  have "alo \<le> i \<and> i + k \<le> ahi"
    by (cases "alo \<le> ahi") (auto simp: max_def)
  with k 2 show ?case by auto
next
  case 3
  then show ?case by simp
qed

text \<open>
  The loop that merges adjacent blocks after \<open>matching_blocks.sort()\<close>; the state is
  \<open>((i1, j1, k1), non_adjacent)\<close>.
\<close>

fun collapse :: "match list \<Rightarrow> match \<times> match list \<Rightarrow> match \<times> match list" where
  "collapse [] st = st"
| "collapse ((i2, j2, k2) # rest) ((i1, j1, k1), non_adjacent) =
     (if i1 + k1 = i2 \<and> j1 + k1 = j2
      then collapse rest ((i1, j1, k1 + k2), non_adjacent)
      else collapse rest
             ((i2, j2, k2), if k1 \<noteq> 0 then non_adjacent @ [(i1, j1, k1)] else non_adjacent))"

definition get_matching_blocks :: "'a list \<Rightarrow> 'a list \<Rightarrow> match list" where
  "get_matching_blocks a b =
     (let la = length a; lb = length b;
          matching_blocks = sort (gmb_loop a b [(0, la, 0, lb)] [])
      in case collapse matching_blocks ((0, 0, 0), []) of
           ((i1, j1, k1), non_adjacent) \<Rightarrow>
             (if k1 \<noteq> 0 then non_adjacent @ [(i1, j1, k1)] else non_adjacent) @ [(la, lb, 0)])"

text \<open>
  \<open>_calculate_ratio\<close> and \<open>ratio\<close>. \<open>matches\<close> and \<open>length\<close> are integers below \<open>2^53\<close> for any
  string that fits in memory, so \<open>2.0 * matches\<close> and the conversion of \<open>length\<close> are exact and
  the division is the one rounding.
\<close>

definition calculate_ratio :: "nat \<Rightarrow> nat \<Rightarrow> rat" where
  "calculate_ratio matches length' =
     (if length' \<noteq> 0 then fdiv (2 * of_nat matches) (of_nat length') else 1)"

definition ratio :: "'a list \<Rightarrow> 'a list \<Rightarrow> rat" where
  "ratio a b =
     (let matches = sum_list (map (\<lambda>(i, j, k). k) (get_matching_blocks a b))
      in calculate_ratio matches (length a + length b))"

subsection \<open>Notions for the invariants of the matcher\<close>

text \<open>
  The size \<open>k\<close> of a block \<open>(i, j, k)\<close>; the number of elements right before position \<open>i\<close>
  of \<open>b\<close> that follow each other without a popular one; and \<open>j2len.get(j-1, 0)\<close>.
\<close>

definition block_size :: "match \<Rightarrow> nat" where
  "block_size m = (case m of (i, j, k) \<Rightarrow> k)"

fun clean_run :: "'a list \<Rightarrow> nat \<Rightarrow> nat" where
  "clean_run b 0 = 0"
| "clean_run b (Suc i) = (if popular b (b ! i) then 0 else clean_run b i + 1)"

definition j2len_get :: "(nat \<rightharpoonup> nat) \<Rightarrow> nat \<Rightarrow> nat" where
  "j2len_get m j = (if j = 0 then 0 else case m (j - 1) of None \<Rightarrow> 0 | Some v \<Rightarrow> v)"

section \<open>The deduplication engine (\<open>index.py\<close>)\<close>

definition calculate_similarity :: "string \<Rightarrow> string \<Rightarrow> rat" where
  "calculate_similarity str1 str2 = ratio (lower str1) (lower str2)"

text \<open>
  A song is the dictionary \<open>get_playlist_songs\<close> builds, with the keys \<open>id\<close>,
  \<open>playlistItemId\<close>, \<open>titulo\<close> and \<open>artista\<close>; an entry of \<open>removed_songs\<close> is the dictionary
  with the keys \<open>cancion\<close>, \<open>similar_a\<close>, \<open>similaridad_titulo\<close> and \<open>similaridad_artista\<close>.
\<close>

record song =
  id' :: string
  playlistItemId :: string
  titulo :: string
  artista :: string

record removed_song =
  cancion :: song
  similar_a :: song
  similaridad_titulo :: rat
  similaridad_artista :: rat

text \<open>
  The inner loop \<open>for filtered_song in filtered_songs\<close> of \<open>remove_similar_songs\<close>: it
  leaves at the first entry that passes both thresholds (\<open>break\<close>) with the record it appends
  to \<open>removed_songs\<close>; \<open>None\<close> is the loop running to its end, \<open>is_duplicate\<close> still \<open>False\<close>.
\<close>

fun scan_filtered :: "song \<Rightarrow> rat \<Rightarrow> rat \<Rightarrow> song list \<Rightarrow> removed_song option" where
  "scan_filtered song title_threshold artist_threshold [] = None"
| "scan_filtered song title_threshold artist_threshold (filtered_song # rest) =
     (let title_similarity = calculate_similarity (titulo song) (titulo filtered_song);
          artist_similarity = calculate_similarity (artista song) (artista filtered_song)
      in if title_threshold \<le> title_similarity \<and> artist_threshold \<le> artist_similarity
         then Some \<lparr>cancion = song, similar_a = filtered_song,
                    similaridad_titulo = round2 title_similarity,
                    similaridad_artista = round2 artist_similarity\<rparr>
         else scan_filtered song title_threshold artist_threshold rest)"

text \<open>The outer loop over \<open>songs\<close>; the state is \<open>(filtered_songs, removed_songs)\<close>.\<close>

fun dedup_loop ::
  "song list \<Rightarrow> rat \<Rightarrow> rat \<Rightarrow> song list \<times> removed_song list \<Rightarrow> song list \<times> removed_song list"
  where
  "dedup_loop [] title_threshold artist_threshold st = st"
| "dedup_loop (song # songs) title_threshold artist_threshold (filtered_songs, removed_songs) =
     (case scan_filtered song title_threshold artist_threshold filtered_songs of
        Some r \<Rightarrow>
          dedup_loop songs title_threshold artist_threshold (filtered_songs, removed_songs @ [r])
      | None \<Rightarrow>
          dedup_loop songs title_threshold artist_threshold (filtered_songs @ [song], removed_songs))"

definition remove_similar_songs ::
  "song list \<Rightarrow> rat \<Rightarrow> rat \<Rightarrow> song list \<times> removed_song list" where
  "remove_similar_songs songs title_threshold artist_threshold =
     dedup_loop songs title_threshold artist_threshold ([], [])"

text \<open>The test of the \<open>if\<close> in the inner loop, for stating what the loops do.\<close>

definition both_exceed :: "song \<Rightarrow> song \<Rightarrow> rat \<Rightarrow> rat \<Rightarrow> bool" where
  "both_exceed song filtered_song title_threshold artist_threshold \<longleftrightarrow>
     title_threshold \<le> calculate_similarity (titulo song) (titulo filtered_song)
     \<and> artist_threshold \<le> calculate_similarity (artista song) (artista filtered_song)"

definition evidence :: "song \<Rightarrow> song \<Rightarrow> removed_song" where
  "evidence song filtered_song =
     \<lparr>cancion = song, similar_a = filtered_song,
      similaridad_titulo = round2 (calculate_similarity (titulo song) (titulo filtered_song)),
      similaridad_artista = round2 (calculate_similarity (artista song) (artista filtered_song))\<rparr>"

section \<open>The import workflow (\<open>shazam_import.py\<close>)\<close>

subsection \<open>\<open>import_songs_from_csv\<close>\<close>








subsection \<open>Choosing the best search result\<close>

text \<open>
  A search result, with the three values \<open>add_songs_to_shazam_playlist\<close> reads from it:
  \<open>item["id"]["videoId"]\<close>, \<open>item["snippet"]["title"]\<close> and
  \<open>item["snippet"].get("channelTitle", "")\<close>, the last one optional.
\<close>

record search_item =
  videoId :: string
  snippet_title :: string
  snippet_channelTitle :: "string option"

text \<open>
  The loop \<open>for item in search_response.get("items", [])\<close>; the state is
  \<open>(best_score, best_video)\<close>.
\<close>

fun best_loop ::
  "string \<Rightarrow> string \<Rightarrow> search_item list \<Rightarrow> rat \<times> search_item option \<Rightarrow>
   rat \<times> search_item option" where
  "best_loop title artist [] st = st"
| "best_loop title artist (item # items) (best_score, best_video) =
     (let video_title = snippet_title item;
          channel_title = (case snippet_channelTitle item of None \<Rightarrow> [] | Some c \<Rightarrow> c);
          score_title = calculate_similarity title video_title;
          score_artist = calculate_similarity artist channel_title;
          score = fdiv (fadd score_title score_artist) 2
      in if best_score < score then best_loop title artist items (score, Some item)
         else best_loop title artist items (best_score, best_video))"

text \<open>
  The loop started at \<open>best_score = 0\<close>, \<open>best_video = None\<close>, and the test
  \<open>if best_video and best_score > 0.5\<close> after it: the result is the video that is added
  to the playlist, or \<open>None\<close> for \<open>No good match found\<close>.
\<close>

definition select_best :: "string \<Rightarrow> string \<Rightarrow> search_item list \<Rightarrow> search_item option" where
  "select_best title artist items =
     (case best_loop title artist items (0, None) of
        (best_score, best_video) \<Rightarrow>
          if best_video \<noteq> None \<and> 1 / 2 < best_score then best_video else None)"

text \<open>The score the loop gives one search result.\<close>

definition candidate_score :: "string \<Rightarrow> string \<Rightarrow> search_item \<Rightarrow> rat" where
  "candidate_score title artist item =
     fdiv (fadd (calculate_similarity title (snippet_title item))
                (calculate_similarity artist
                   (case snippet_channelTitle item of None \<Rightarrow> [] | Some c \<Rightarrow> c))) 2"

subsection \<open>Setting up the destination playlist\<close>

text \<open>
  What the collaborators do when \<open>get_or_create_shazam_playlist\<close> runs:
  \<open>get_youtube_client\<close> raises (it is called outside the \<open>try\<close>), or reports that it is
  not authenticated, or a call of the playlist API raises inside the \<open>try\<close>, or the playlist
  is found or created and its id returned. The strings are \<open>str(e)\<close> of the exception.
\<close>

datatype setup_outcome =
    ClientRaised string
  | NotAuthenticated
  | ApiRaised string
  | PlaylistReady string

text \<open>\<open>Inl\<close> is an exception that leaves the function; \<open>Inr\<close> is the value it returns.\<close>

fun get_or_create_shazam_playlist :: "setup_outcome \<Rightarrow> string + string option" where
  "get_or_create_shazam_playlist (ClientRaised e) = Inl e"
| "get_or_create_shazam_playlist NotAuthenticated = Inr None"
| "get_or_create_shazam_playlist (ApiRaised e) = Inr None"
| "get_or_create_shazam_playlist (PlaylistReady playlist_id) = Inr (Some playlist_id)"

definition is_quota_error :: "string \<Rightarrow> bool" where
  "is_quota_error error_str \<longleftrightarrow>
     contains ''quota'' (lower error_str) \<or> contains ''quotaExceeded'' error_str
     \<or> contains ''403'' error_str"

text \<open>
  The start of \<open>add_songs_to_shazam_playlist\<close>, up to the point where the search loop
  begins: what it does with the imported songs and the outcome of the setup.
  \<open>WriteFallback rows\<close> is writing \<open>rows\<close> to \<open>deduplicated_songs.csv\<close>; \<open>ReportError\<close> is the
  branch that only prints the error; \<open>Proceed\<close> goes on to the search loop with the id.
\<close>

datatype setup_action =
    NoSongs
  | WriteFallback "string list list"
  | ReportError string
  | Proceed string

definition fallback_rows :: "(string \<times> string) list \<Rightarrow> string list list" where
  "fallback_rows songs = [''Title'', ''Artist''] # map (\<lambda>(t, a). [t, a]) songs"

definition setup_playlist :: "(string \<times> string) list \<Rightarrow> setup_outcome \<Rightarrow> setup_action" where
  "setup_playlist songs outcome =
     (if songs = [] then NoSongs
      else
        case (case get_or_create_shazam_playlist outcome of
                Inl e \<Rightarrow> (None, Some e)
              | Inr playlist_id \<Rightarrow> (playlist_id, None)) of
          (playlist_id, error_str) \<Rightarrow>
            if playlist_id = None \<or> playlist_id = Some [] then
              let error_str = (case error_str of None \<Rightarrow> [] | Some e \<Rightarrow> e)
              in if (error_str \<noteq> [] \<and> is_quota_error error_str) \<or> playlist_id = None
                 then WriteFallback (fallback_rows songs)
                 else ReportError error_str
            else Proceed (the playlist_id))"

section \<open>Examples\<close>

subsection \<open>Example playlists\<close>

text \<open>
  The end-to-end scenario and the \<open>Imagine\<close> example of the specification, and three
  entries where the later kept entry scores higher than the first one that passes. The
  thresholds \<open>0.8\<close> and \<open>0.9\<close> of \<open>main\<close> are the floats \<open>fl (4 / 5)\<close> and \<open>fl (9 / 10)\<close>.
\<close>

definition hey_jude :: song where
  "hey_jude = \<lparr>id' = ''v1'', playlistItemId = ''p1'', titulo = ''Hey Jude'',
               artista = ''The Beatles''\<rparr>"

definition hey_jude_lower :: song where
  "hey_jude_lower = \<lparr>id' = ''v2'', playlistItemId = ''p2'', titulo = ''hey jude'',
                     artista = ''The Beatles''\<rparr>"

definition let_it_be :: song where
  "let_it_be = \<lparr>id' = ''v3'', playlistItemId = ''p3'', titulo = ''Let It Be'',
                artista = ''The Beatles''\<rparr>"

definition imagine_lennon :: song where
  "imagine_lennon = \<lparr>id' = ''v4'', playlistItemId = ''p4'', titulo = ''Imagine'',
                     artista = ''John Lennon''\<rparr>"

definition imagine_various :: song where
  "imagine_various = \<lparr>id' = ''v5'', playlistItemId = ''p5'', titulo = ''Imagine'',
                      artista = ''Various Artists''\<rparr>"

definition yesterday :: song where
  "yesterday = \<lparr>id' = ''v6'', playlistItemId = ''p6'', titulo = ''Yesterday'',
               artista = ''The Beatles''\<rparr>"

definition yesterday_mix_2 :: song where
  "yesterday_mix_2 = \<lparr>id' = ''v7'', playlistItemId = ''p7'',
                         titulo = ''Yesterday mix 2'', artista = ''The Beatles''\<rparr>"

definition yesterday_mix :: song where
  "yesterday_mix = \<lparr>id' = ''v8'', playlistItemId = ''p8'',
                    titulo = ''Yesterday mix'', artista = ''The Beatles''\<rparr>"

subsection \<open>Example search results\<close>

text \<open>Candidates for the query \<open>("Imagine", "John Lennon")\<close>.\<close>

definition cover_video :: search_item where
  "cover_video = \<lparr>videoId = ''a1'', snippet_title = ''Imagine (cover)'',
                  snippet_channelTitle = Some ''Someone''\<rparr>"

definition lennon_video :: search_item where
  "lennon_video = \<lparr>videoId = ''a2'', snippet_title = ''Imagine'',
                   snippet_channelTitle = Some ''John Lennon''\<rparr>"

definition lennon_video_upper :: search_item where
  "lennon_video_upper = \<lparr>videoId = ''a3'', snippet_title = ''IMAGINE'',
                         snippet_channelTitle = Some ''JOHN LENNON''\<rparr>"

definition untitled_channel_video :: search_item where
  "untitled_channel_video = \<lparr>videoId = ''a4'', snippet_title = ''Imagine'',
                             snippet_channelTitle = None\<rparr>"

subsection \<open>Example import files\<close>







section \<open>Lemmas about floats\<close>

lemma binade_bounds:
  assumes "0 < q"
  shows "power_int 2 (binade q) \<le> q \<and> q < power_int 2 (binade q + 1)"
proof -
  obtain n d where qd: "quotient_of q = (n, d)"
    by (cases "quotient_of q")
  then have d: "0 < d" and q: "q = of_int n / of_int d"
    by (simp_all add: quotient_of_denom_pos quotient_of_div)
  from assms d q have n: "0 < n"
    by (simp add: zero_less_divide_iff)
  have "bitlen n \<noteq> 0" "bitlen d \<noteq> 0"
    using n d by (simp_all add: bitlen_eq_zero_iff)
  with bitlen_nonneg [of n] bitlen_nonneg [of d]
  have p: "0 \<le> bitlen n - 1" "0 \<le> bitlen d - 1"
    by linarith+
  from p(1) obtain a where a: "bitlen n - 1 = int a"
    using zero_le_imp_eq_int by blast
  from p(2) obtain c where c: "bitlen d - 1 = int c"
    using zero_le_imp_eq_int by blast
  have bn: "bitlen n = int (a + 1)" and bd: "bitlen d = int (c + 1)"
    using a c by linarith+
  have na': "nat (bitlen n - 1) = a" "nat (bitlen n) = a + 1"
    unfolding bn by simp_all
  have nc': "nat (bitlen d - 1) = c" "nat (bitlen d) = c + 1"
    unfolding bd by simp_all
  from bitlen_bounds [OF n] have "2 ^ a \<le> n" "n < 2 ^ (a + 1)"
    unfolding na' by blast+
  then have na: "(2::rat) ^ a \<le> of_int n" and nb: "of_int n < (2::rat) ^ (a + 1)"
    by (metis of_int_le_iff of_int_numeral of_int_power, metis of_int_less_iff of_int_numeral of_int_power)
  from bitlen_bounds [OF d] have "2 ^ c \<le> d" "d < 2 ^ (c + 1)"
    unfolding nc' by blast+
  then have da: "(2::rat) ^ c \<le> of_int d" and db: "of_int d < (2::rat) ^ (c + 1)"
    by (metis of_int_le_iff of_int_numeral of_int_power, metis of_int_less_iff of_int_numeral of_int_power)
  have dpos: "(0::rat) < of_int d"
    using d by simp
  define k where "k = bitlen n - bitlen d"
  have k: "k = int a - int c"
    unfolding k_def using a c by linarith
  have k1: "k + 1 = int (a + 1) - int c" and k2: "k - 1 = int a - int (c + 1)"
    by (simp_all add: k)
  have "power_int (2::rat) (int (a + 1) - int c)
        = power_int 2 (int (a + 1)) / power_int 2 (int c)"
    by (rule power_int_diff) simp
  then have e1: "power_int (2::rat) (k + 1) = 2 ^ (a + 1) / 2 ^ c"
    unfolding k1 power_int_of_nat .
  have "power_int (2::rat) (int a - int (c + 1))
        = power_int 2 (int a) / power_int 2 (int (c + 1))"
    by (rule power_int_diff) simp
  then have e2: "power_int (2::rat) (k - 1) = 2 ^ a / 2 ^ (c + 1)"
    unfolding k2 power_int_of_nat .
  have "q < 2 ^ (a + 1) / of_int d"
    unfolding q using nb dpos by (rule divide_strict_right_mono)
  also have "\<dots> \<le> 2 ^ (a + 1) / 2 ^ c"
    using da dpos by (intro divide_left_mono) simp_all
  finally have upper: "q < power_int 2 (k + 1)"
    unfolding e1 .
  have "2 ^ a / 2 ^ (c + 1) \<le> of_int n / (2::rat) ^ (c + 1)"
    using na by (intro divide_right_mono) simp_all
  also have "\<dots> \<le> q"
    unfolding q using db dpos n by (intro divide_left_mono) simp_all
  finally have lower: "power_int 2 (k - 1) \<le> q"
    unfolding e2 .
  have b: "binade q = (if power_int 2 k \<le> q then k else k - 1)"
    unfolding binade_def qd k_def by (simp add: Let_def)
  show ?thesis
  proof (cases "power_int 2 k \<le> q")
    case True
    with b upper show ?thesis by simp
  next
    case False
    with b lower show ?thesis by (simp add: not_le)
  qed
qed


lemma round_half_even_nonneg: "0 \<le> x \<Longrightarrow> 0 \<le> round_half_even x"
  by (simp add: round_half_even_def Let_def)

lemma round_half_even_le:
  assumes "x \<le> of_int m"
  shows "round_half_even x \<le> m"
proof -
  have f: "\<lfloor>x\<rfloor> \<le> m"
    using assms by (simp add: floor_le_iff)
  show ?thesis
  proof (cases "x - of_int \<lfloor>x\<rfloor> < 1 / 2")
    case True
    with f show ?thesis by (simp add: round_half_even_def Let_def)
  next
    case False
    then have "of_int \<lfloor>x\<rfloor> < x"
      by simp
    from this assms have "(of_int \<lfloor>x\<rfloor> :: rat) < of_int m"
      by (rule less_le_trans)
    then have "\<lfloor>x\<rfloor> + 1 \<le> m"
      by simp
    with f show ?thesis by (simp add: round_half_even_def Let_def)
  qed
qed

lemma fl_zero: "fl 0 = 0"
  by (simp add: fl_def)

lemma fl_one: "fl 1 = 1"
  by code_simp

lemma fl_nonneg: "0 \<le> fl q"
proof (cases "q \<le> 0")
  case True
  then show ?thesis by (simp add: fl_def)
next
  case False
  then have "0 \<le> q * power_int 2 (52 - binade q)"
    by simp
  then have "0 \<le> round_half_even (q * power_int 2 (52 - binade q))"
    by (rule round_half_even_nonneg)
  with False show ?thesis
    by (simp add: fl_def Let_def)
qed

lemma fl_le_one:
  assumes "q \<le> 1"
  shows "fl q \<le> 1"
proof (cases "q \<le> 0")
  case True
  then show ?thesis by (simp add: fl_def)
next
  case pos: False
  show ?thesis
  proof (cases "q = 1")
    case True
    then show ?thesis by (simp add: fl_one)
  next
    case False
    with assms have lt: "q < 1" by simp
    define e where "e = binade q"
    from pos have "0 < q" by simp
    from binade_bounds [OF this] have lo: "power_int 2 e \<le> q" and hi: "q < power_int 2 (e + 1)"
      by (simp_all add: e_def)
    from lo lt have "power_int (2::rat) e < power_int 2 0"
      by simp
    then have "e < 0"
      by (rule power_int_le_imp_less_exp [rotated]) simp_all
    then have small: "power_int (2::rat) (e + 1) \<le> 1"
      using power_int_increasing [of "e + 1" 0 "2::rat"] by simp
    have "q * power_int 2 (52 - e) < power_int 2 (e + 1) * power_int 2 (52 - e)"
      using hi by (rule mult_strict_right_mono) simp
    also have "\<dots> = power_int 2 ((e + 1) + (52 - e))"
      by (rule power_int_add [symmetric]) simp
    also have "\<dots> = of_int (2 ^ 53)"
      by simp
    finally have "q * power_int 2 (52 - e) \<le> of_int (2 ^ 53)"
      by simp
    then have "round_half_even (q * power_int 2 (52 - e)) \<le> 2 ^ 53"
      by (rule round_half_even_le)
    then have "(of_int (round_half_even (q * power_int 2 (52 - e))) :: rat) \<le> of_int (2 ^ 53)"
      by (simp only: of_int_le_iff)
    then have "of_int (round_half_even (q * power_int 2 (52 - e))) * power_int 2 (- (52 - e))
               \<le> of_int (2 ^ 53) * power_int (2::rat) (- (52 - e))"
      by (rule mult_right_mono) simp
    also have "of_int (2 ^ 53) * power_int (2::rat) (- (52 - e))
               = power_int 2 53 * power_int 2 (- (52 - e))"
      by simp
    also have "\<dots> = power_int 2 (53 + (- (52 - e)))"
      by (rule power_int_add [symmetric]) simp
    also have "53 + (- (52 - e)) = e + 1"
      by simp
    finally have "fl q \<le> power_int 2 (e + 1)"
      using pos by (simp add: fl_def Let_def e_def)
    with small show ?thesis by simp
  qed
qed

section \<open>Lemmas about the matcher\<close>

subsection \<open>The blocks are disjoint parts of both sequences\<close>

lemma block_size_simp [simp]: "block_size (i, j, k) = k"
  by (simp add: block_size_def)

lemma gmb_loop_sum:
  "sum_list (map block_size (gmb_loop a b queue mbs))
     \<le> sum_list (map block_size mbs)
        + sum_list (map (\<lambda>(alo, ahi, blo, bhi). min (ahi - alo) (bhi - blo)) queue)"
proof (induction a b queue mbs rule: gmb_loop.induct)
  case (1 a b mbs)
  show ?case by simp
next
  case (2 a b alo ahi blo bhi queue mbs)
  obtain i j k where flm: "find_longest_match a b alo ahi blo bhi = (i, j, k)"
    by (cases "find_longest_match a b alo ahi blo bhi")
  let ?cap = "\<lambda>(alo, ahi, blo, bhi). min (ahi - alo) (bhi - blo)"
  show ?case
  proof (cases "k = 0")
    case True
    then have "\<not> k \<noteq> 0" by simp
    from "2.IH"(2) [OF flm [symmetric] refl this] flm True show ?thesis
      by simp
  next
    case False
    from find_longest_match_bounds [OF flm] False
    have bnd: "alo \<le> i \<and> i + k \<le> ahi \<and> blo \<le> j \<and> j + k \<le> bhi"
      by (auto simp: max_def split: if_splits)
    define queue1 where "queue1 = (if alo < i \<and> blo < j then (alo, i, blo, j) # queue else queue)"
    define queue2 where
      "queue2 = (if i + k < ahi \<and> j + k < bhi then (i + k, ahi, j + k, bhi) # queue1 else queue1)"
    have step: "gmb_loop a b ((alo, ahi, blo, bhi) # queue) mbs
                = gmb_loop a b queue2 (mbs @ [(i, j, k)])"
      using flm False by (simp add: queue1_def queue2_def Let_def)
    have ih: "sum_list (map block_size (gmb_loop a b queue2 (mbs @ [(i, j, k)])))
              \<le> sum_list (map block_size (mbs @ [(i, j, k)])) + sum_list (map ?cap queue2)"
      by (rule "2.IH"(1) [OF flm [symmetric] refl False queue1_def queue2_def])
    have q1: "sum_list (map ?cap queue1) \<le> min (i - alo) (j - blo) + sum_list (map ?cap queue)"
      by (simp add: queue1_def)
    have q2: "sum_list (map ?cap queue2)
              \<le> min (ahi - (i + k)) (bhi - (j + k)) + sum_list (map ?cap queue1)"
      by (simp add: queue2_def)
    have "k + min (i - alo) (j - blo) + min (ahi - (i + k)) (bhi - (j + k)) \<le> ahi - alo"
         "k + min (i - alo) (j - blo) + min (ahi - (i + k)) (bhi - (j + k)) \<le> bhi - blo"
      using bnd by linarith+
    then have "k + min (i - alo) (j - blo) + min (ahi - (i + k)) (bhi - (j + k))
          \<le> min (ahi - alo) (bhi - blo)"
      by simp
    with q1 q2 have "k + sum_list (map ?cap queue2)
                     \<le> min (ahi - alo) (bhi - blo) + sum_list (map ?cap queue)"
      by linarith
    with ih show ?thesis
      unfolding step by simp
  qed
qed

lemma collapse_sum:
  assumes "collapse blocks ((i1, j1, k1), non_adjacent) = ((i, j, k), result)"
  shows "k + sum_list (map block_size result)
         = k1 + sum_list (map block_size non_adjacent) + sum_list (map block_size blocks)"
  using assms
proof (induction blocks arbitrary: i1 j1 k1 non_adjacent)
  case Nil
  then show ?case by simp
next
  case (Cons blk blocks)
  obtain i2 j2 k2 where blk: "blk = (i2, j2, k2)"
    by (cases blk)
  show ?case
  proof (cases "i1 + k1 = i2 \<and> j1 + k1 = j2")
    case True
    with Cons.prems blk
    have "collapse blocks ((i1, j1, k1 + k2), non_adjacent) = ((i, j, k), result)"
      by simp
    from Cons.IH [OF this] blk show ?thesis by simp
  next
    case False
    with Cons.prems blk
    have "collapse blocks ((i2, j2, k2),
            if k1 \<noteq> 0 then non_adjacent @ [(i1, j1, k1)] else non_adjacent)
          = ((i, j, k), result)"
      by simp
    from Cons.IH [OF this] blk show ?thesis by (simp split: if_splits)
  qed
qed

lemma sum_list_sort:
  fixes xs :: "match list"
  shows "sum_list (map block_size (sort xs)) = sum_list (map block_size xs)"
proof -
  have "sum_mset (image_mset block_size (mset (sort xs)))
        = sum_mset (image_mset block_size (mset xs))"
    by simp
  then show ?thesis
    by (simp only: sum_mset_sum_list flip: mset_map)
qed

lemma matches_eq:
  "sum_list (map (\<lambda>(i, j, k). k) (get_matching_blocks a b))
   = sum_list (map block_size (gmb_loop a b [(0, length a, 0, length b)] []))"
proof -
  let ?blocks = "sort (gmb_loop a b [(0, length a, 0, length b)] [])"
  obtain st result where "collapse ?blocks ((0, 0, 0), []) = (st, result)"
    by (cases "collapse ?blocks ((0, 0, 0), [])")
  moreover obtain i j k where "st = (i, j, k)"
    by (cases st)
  ultimately have c: "collapse ?blocks ((0, 0, 0), []) = ((i, j, k), result)"
    by simp
  from collapse_sum [OF c]
  have s: "k + sum_list (map block_size result) = sum_list (map block_size ?blocks)"
    by simp
  have f: "(\<lambda>(i, j, k). k) = block_size"
    by (auto simp: block_size_def)
  have "sum_list (map block_size (get_matching_blocks a b)) = k + sum_list (map block_size result)"
    using c by (simp add: get_matching_blocks_def Let_def)
  with s show ?thesis
    unfolding f by (simp only: sum_list_sort)
qed

lemma matches_le:
  "sum_list (map (\<lambda>(i, j, k). k) (get_matching_blocks a b)) \<le> min (length a) (length b)"
  unfolding matches_eq using gmb_loop_sum [of a b "[(0, length a, 0, length b)]" "[]"] by simp

lemma calculate_ratio_range:
  assumes "2 * m \<le> t"
  shows "0 \<le> calculate_ratio m t \<and> calculate_ratio m t \<le> 1"
proof (cases "t = 0")
  case True
  then show ?thesis by (simp add: calculate_ratio_def)
next
  case False
  from assms have "(of_nat (2 * m) :: rat) \<le> of_nat t"
    by (simp only: of_nat_le_iff)
  moreover have "(0::rat) < of_nat t"
    using False by simp
  ultimately have "2 * of_nat m / (of_nat t :: rat) \<le> 1"
    by (simp add: divide_le_eq_1)
  then have "fl (2 * of_nat m / of_nat t) \<le> 1"
    by (rule fl_le_one)
  with False show ?thesis
    by (simp add: calculate_ratio_def fdiv_def fl_nonneg)
qed

lemma ratio_range: "0 \<le> ratio a b \<and> ratio a b \<le> 1"
proof -
  define m where "m = sum_list (map (\<lambda>(i, j, k). k) (get_matching_blocks a b))"
  have "m \<le> min (length a) (length b)"
    unfolding m_def by (rule matches_le)
  then have "2 * m \<le> length a + length b"
    by simp
  from calculate_ratio_range [OF this] show ?thesis
    by (simp add: ratio_def m_def Let_def)
qed

lemma ratio_empty:
  assumes "a = [] \<or> b = []" and "a \<noteq> b"
  shows "ratio a b = 0"
proof -
  define m where "m = sum_list (map (\<lambda>(i, j, k). k) (get_matching_blocks a b))"
  have "m \<le> min (length a) (length b)"
    unfolding m_def by (rule matches_le)
  with assms(1) have m: "m = 0"
    by auto
  from assms have "length a + length b \<noteq> 0"
    by auto
  then show ?thesis
    by (simp add: ratio_def m_def [symmetric] m Let_def calculate_ratio_def fdiv_def fl_zero)
qed

subsection \<open>A sequence matched with itself\<close>

text \<open>
  When both sequences are the same list, the best block of the main loop of
  \<open>find_longest_match\<close> always lies on the diagonal, popular elements or not: a block off
  the diagonal is never longer than the diagonal block that ends in the same row or
  column, and that one has been seen before. The two loops that extend the block over
  elements that are not junk then make it the whole sequence.
\<close>

lemma flm_inner_step:
  assumes "j < bhi"
  shows "flm_inner m i 0 bhi (j # js) (new, bi, bj, bs) =
     (if bs < j2len_get m j + 1
      then flm_inner m i 0 bhi js
             (new(j \<mapsto> j2len_get m j + 1), i + 1 - (j2len_get m j + 1),
              j + 1 - (j2len_get m j + 1), j2len_get m j + 1)
      else flm_inner m i 0 bhi js (new(j \<mapsto> j2len_get m j + 1), bi, bj, bs))"
  using assms by (simp add: j2len_get_def Let_def)

lemma flm_inner_diagonal:
  assumes "flm_inner m i 0 n js (new, bi, bj, bs) = (new', bi', bj', bs')"
    and "sorted js" and "distinct js"
    and "\<forall>j \<in> set js. j < n \<and> \<not> popular a (a ! j)"
    and "\<not> popular a (a ! i)"
    and "\<forall>j. j2len_get m j \<le> clean_run a i \<and> j2len_get m j \<le> clean_run a j"
    and "j2len_get m i = clean_run a i"
    and "\<forall>j v. new j = Some v \<longrightarrow> v \<le> clean_run a (Suc i) \<and> v \<le> clean_run a (Suc j)"
    and "bi = bj" and "\<forall>i' \<le> i. clean_run a i' \<le> bs"
    and "i \<in> set js \<or> ((\<forall>j \<in> set js. i < j) \<and> clean_run a (Suc i) \<le> bs
                            \<and> new i = Some (clean_run a (Suc i)))"
  shows "bi' = bj' \<and> (\<forall>i' \<le> Suc i. clean_run a i' \<le> bs')
         \<and> (\<forall>j v. new' j = Some v \<longrightarrow> v \<le> clean_run a (Suc i) \<and> v \<le> clean_run a (Suc j))
         \<and> new' i = Some (clean_run a (Suc i))"
  using assms
proof (induction js arbitrary: new bi bj bs)
  case Nil
  then have "\<forall>i' \<le> Suc i. clean_run a i' \<le> bs"
    by (auto simp: le_Suc_eq)
  with Nil show ?case by simp
next
  case (Cons j js)
  let ?k = "j2len_get m j + 1"
  from Cons.prems(4) have jn: "j < n" and jp: "\<not> popular a (a ! j)"
    by simp_all
  have kj: "?k \<le> clean_run a (Suc j)"
    using Cons.prems(6) jp by simp
  have ki: "?k \<le> clean_run a (Suc i)"
    using Cons.prems(6) Cons.prems(5) by simp
  have kd: "?k = clean_run a (Suc i)" if "j = i"
    using that Cons.prems(7) Cons.prems(5) by simp
  have sorted': "sorted js" and distinct': "distinct js"
    and rest: "\<forall>j \<in> set js. j < n \<and> \<not> popular a (a ! j)"
    using Cons.prems(2,3,4) by simp_all
  have above: "\<forall>x \<in> set js. j < x"
    using Cons.prems(2,3) by (auto simp: le_less)
  have newinv: "\<forall>x v. (new(j \<mapsto> ?k)) x = Some v
                  \<longrightarrow> v \<le> clean_run a (Suc i) \<and> v \<le> clean_run a (Suc x)"
    using Cons.prems(8) kj ki by auto
  have progress: "i \<in> set js \<or> ((\<forall>x \<in> set js. i < x) \<and> clean_run a (Suc i) \<le> bs2
                            \<and> (new(j \<mapsto> ?k)) i = Some (clean_run a (Suc i)))"
    if "j = i \<longrightarrow> clean_run a (Suc i) \<le> bs2" and "bs \<le> bs2" for bs2
  proof (cases "i \<in> set js")
    case True
    then show ?thesis by simp
  next
    case False
    show ?thesis
    proof (cases "j = i")
      case True
      with that(1) above kd show ?thesis by simp
    next
      case ne: False
      with False Cons.prems(11) have fin: "(\<forall>x \<in> set (j # js). i < x)"
        "clean_run a (Suc i) \<le> bs" "new i = Some (clean_run a (Suc i))"
        by auto
      with ne that(2) show ?thesis by auto
    qed
  qed
  show ?case
  proof (cases "bs < ?k")
    case True
    have ji: "j = i"
    proof (rule ccontr)
      assume ne: "j \<noteq> i"
      show False
      proof (cases "j < i")
        case True
        then have "Suc j \<le> i" by simp
        with Cons.prems(10) have "clean_run a (Suc j) \<le> bs" by blast
        with kj \<open>bs < ?k\<close> show False by simp
      next
        case False
        with ne have "i < j" by simp
        then have "i \<notin> set (j # js)"
          using above by auto
        with Cons.prems(11) have "clean_run a (Suc i) \<le> bs" by blast
        with ki \<open>bs < ?k\<close> show False by simp
      qed
    qed
    have run: "flm_inner m i 0 n js (new(j \<mapsto> ?k), i + 1 - ?k, j + 1 - ?k, ?k)
               = (new', bi', bj', bs')"
      using Cons.prems(1) True jn by (simp only: flm_inner_step if_True)
    have best: "\<forall>i' \<le> i. clean_run a i' \<le> ?k"
      using Cons.prems(10) True by (meson le_trans less_imp_le)
    have "i \<in> set js \<or> ((\<forall>x \<in> set js. i < x) \<and> clean_run a (Suc i) \<le> ?k
                            \<and> (new(j \<mapsto> ?k)) i = Some (clean_run a (Suc i)))"
      by (rule progress) (use kd True in auto)
    from Cons.IH [OF run sorted' distinct' rest Cons.prems(5,6,7) newinv _ best this] ji
    show ?thesis by simp
  next
    case False
    have run: "flm_inner m i 0 n js (new(j \<mapsto> ?k), bi, bj, bs) = (new', bi', bj', bs')"
      using Cons.prems(1) False jn by (simp only: flm_inner_step if_False)
    have "i \<in> set js \<or> ((\<forall>x \<in> set js. i < x) \<and> clean_run a (Suc i) \<le> bs
                            \<and> (new(j \<mapsto> ?k)) i = Some (clean_run a (Suc i)))"
      by (rule progress) (use kd False in auto)
    from Cons.IH [OF run sorted' distinct' rest Cons.prems(5,6,7) newinv Cons.prems(9,10) this]
    show ?thesis .
  qed
qed

lemma j2len_get_empty: "j2len_get Map.empty j = 0"
  by (simp add: j2len_get_def)

lemma b2j_self:
  assumes "i < length a" and "\<not> popular a (a ! i)"
  shows "sorted (b2j a (a ! i)) \<and> distinct (b2j a (a ! i)) \<and> i \<in> set (b2j a (a ! i))
         \<and> (\<forall>j \<in> set (b2j a (a ! i)). j < length a \<and> \<not> popular a (a ! j))"
proof -
  have eq: "b2j a (a ! i) = filter (\<lambda>j. a ! j = a ! i) [0..<length a]"
    using assms(2) by (simp add: b2j_def)
  have "sorted (filter (\<lambda>j. a ! j = a ! i) [0..<length a])"
    by (rule sorted_wrt_filter) simp
  moreover have "distinct (filter (\<lambda>j. a ! j = a ! i) [0..<length a])"
    by simp
  moreover have "i \<in> set (filter (\<lambda>j. a ! j = a ! i) [0..<length a])"
    using assms(1) by simp
  moreover have "\<forall>j \<in> set (filter (\<lambda>j. a ! j = a ! i) [0..<length a]).
                   j < length a \<and> \<not> popular a (a ! j)"
    using assms(2) by simp
  ultimately show ?thesis
    unfolding eq by (intro conjI)
qed

lemma flm_outer_diagonal:
  assumes "flm_outer a a 0 (length a) [i..<length a] (m, bi, bj, bs) = (bi', bj', bs')"
    and "\<forall>j. j2len_get m j \<le> clean_run a i \<and> j2len_get m j \<le> clean_run a j"
    and "j2len_get m i = clean_run a i"
    and "bi = bj" and "\<forall>i' \<le> i. clean_run a i' \<le> bs"
  shows "bi' = bj'"
  using assms
proof (induction "length a - i" arbitrary: i m bi bj bs)
  case 0
  then show ?case by simp
next
  case (Suc d)
  then have lt: "i < length a" by simp
  obtain new' ci cj cs where
    row: "flm_inner m i 0 (length a) (b2j a (a ! i)) (Map.empty, bi, bj, bs) = (new', ci, cj, cs)"
    by (metis prod_cases4)
  have rest: "flm_outer a a 0 (length a) [Suc i..<length a] (new', ci, cj, cs) = (bi', bj', bs')"
    using Suc.prems(1) lt row by (simp add: upt_conv_Cons)
  have after: "ci = cj \<and> (\<forall>i' \<le> Suc i. clean_run a i' \<le> cs)
         \<and> (\<forall>j. j2len_get new' j \<le> clean_run a (Suc i) \<and> j2len_get new' j \<le> clean_run a j)
         \<and> j2len_get new' (Suc i) = clean_run a (Suc i)"
  proof (cases "popular a (a ! i)")
    case True
    then have "b2j a (a ! i) = []"
      by (simp add: b2j_def)
    with row have "new' = Map.empty" "ci = bi" "cj = bj" "cs = bs"
      by simp_all
    moreover have "\<forall>i' \<le> Suc i. clean_run a i' \<le> bs"
      using Suc.prems(5) True by (auto simp: le_Suc_eq)
    ultimately show ?thesis
      using Suc.prems(4) True by (simp add: j2len_get_empty)
  next
    case False
    note self = b2j_self [OF lt False]
    have inner: "ci = cj \<and> (\<forall>i' \<le> Suc i. clean_run a i' \<le> cs)
         \<and> (\<forall>j v. new' j = Some v \<longrightarrow> v \<le> clean_run a (Suc i) \<and> v \<le> clean_run a (Suc j))
         \<and> new' i = Some (clean_run a (Suc i))"
    proof (rule flm_inner_diagonal [OF row _ _ _ False Suc.prems(2,3) _ Suc.prems(4,5)])
      show "sorted (b2j a (a ! i))" "distinct (b2j a (a ! i))"
        "\<forall>j \<in> set (b2j a (a ! i)). j < length a \<and> \<not> popular a (a ! j)"
        using self by blast+
      show "\<forall>j v. Map.empty j = Some v \<longrightarrow> v \<le> clean_run a (Suc i) \<and> v \<le> clean_run a (Suc j)"
        by simp
      show "i \<in> set (b2j a (a ! i)) \<or> ((\<forall>j \<in> set (b2j a (a ! i)). i < j)
              \<and> clean_run a (Suc i) \<le> bs \<and> Map.empty i = Some (clean_run a (Suc i)))"
        using self by blast
    qed
    have "j2len_get new' j \<le> clean_run a (Suc i) \<and> j2len_get new' j \<le> clean_run a j" for j
    proof (cases j)
      case 0
      then show ?thesis by (simp add: j2len_get_def)
    next
      case (Suc j')
      show ?thesis
      proof (cases "new' j'")
        case None
        with Suc show ?thesis by (simp add: j2len_get_def)
      next
        case (Some v)
        with inner have "v \<le> clean_run a (Suc i) \<and> v \<le> clean_run a (Suc j')"
          by blast
        with Suc Some show ?thesis by (simp add: j2len_get_def)
      qed
    qed
    moreover have "j2len_get new' (Suc i) = clean_run a (Suc i)"
      using inner by (simp add: j2len_get_def)
    ultimately show ?thesis
      using inner by blast
  qed
  show ?case
  proof (rule Suc.hyps(1) [OF _ rest])
    show "d = length a - Suc i" using Suc.hyps(2) by simp
    show "\<forall>j. j2len_get new' j \<le> clean_run a (Suc i) \<and> j2len_get new' j \<le> clean_run a j"
      using after by blast
    show "j2len_get new' (Suc i) = clean_run a (Suc i)"
      using after by blast
    show "ci = cj" using after by blast
    show "\<forall>i' \<le> Suc i. clean_run a i' \<le> cs" using after by blast
  qed
qed

lemma extend_left_self:
  "extend_left a a 0 0 False (p, p, s) = (0, 0, s + p)"
proof (induction p arbitrary: s)
  case 0
  show ?case by (subst extend_left.simps) simp
next
  case (Suc p)
  have "extend_left a a 0 0 False (Suc p, Suc p, s) = extend_left a a 0 0 False (p, p, s + 1)"
    by (subst extend_left.simps) (simp add: isbjunk_def)
  with Suc [of "s + 1"] show ?case by simp
qed

lemma extend_right_self:
  assumes "s \<le> n"
  shows "extend_right a a n n False (0, 0, s) = (0, 0, n)"
  using assms
proof (induction "n - s" arbitrary: s)
  case 0
  then have "s = n" by simp
  then show ?case by (subst extend_right.simps) simp
next
  case (Suc d)
  then have lt: "s < n" by simp
  have "extend_right a a n n False (0, 0, s) = extend_right a a n n False (0, 0, s + 1)"
    using lt by (subst extend_right.simps) (simp add: isbjunk_def)
  also have "\<dots> = (0, 0, n)"
    by (rule Suc.hyps(1)) (use Suc.hyps(2) lt in simp_all)
  finally show ?case .
qed

lemma extend_left_junk: "extend_left a b alo blo True (i, j, k) = (i, j, k)"
  by (subst extend_left.simps) (simp add: isbjunk_def)

lemma extend_right_junk: "extend_right a b ahi bhi True (i, j, k) = (i, j, k)"
  by (subst extend_right.simps) (simp add: isbjunk_def)

lemma find_longest_match_self:
  "find_longest_match a a 0 (length a) 0 (length a) = (0, 0, length a)"
proof -
  obtain p p' s where
    m: "flm_outer a a 0 (length a) [0..<length a] (Map.empty, 0, 0, 0) = (p, p', s)"
    by (metis prod_cases3)
  have "p = p'"
    by (rule flm_outer_diagonal [OF m]) (simp_all add: j2len_get_empty)
  with m have m0: "flm_outer a a 0 (length a) [0..<length a] (Map.empty, 0, 0, 0) = (p, p, s)"
    by (simp only:)
  from flm_outer_bounds [OF m0, of 0] have "p + s \<le> length a"
    by simp
  then have b: "s + p \<le> length a"
    by (simp only: add.commute)
  have "find_longest_match a a 0 (length a) 0 (length a)
        = extend_right a a (length a) (length a) True
            (extend_left a a 0 0 True
              (extend_right a a (length a) (length a) False
                (extend_left a a 0 0 False (p, p, s))))"
    by (simp only: find_longest_match_def m0)
  also have "\<dots> = (0, 0, length a)"
    by (simp only: extend_left_self extend_right_self [OF b] extend_left_junk extend_right_junk)
  finally show ?thesis .
qed

lemma gmb_loop_self:
  assumes "a \<noteq> []"
  shows "gmb_loop a a [(0, length a, 0, length a)] [] = [(0, 0, length a)]"
proof -
  have "gmb_loop a a [(0, length a, 0, length a)] [] = gmb_loop a a [] ([] @ [(0, 0, length a)])"
    by (subst gmb_loop.simps)
       (simp only: find_longest_match_self prod.case Let_def assms length_0_conv
          add_0 less_irrefl simp_thms if_True if_False not_False_eq_True)
  then show ?thesis
    by (simp only: gmb_loop.simps(1) append_Nil)
qed

lemma ratio_self: "ratio a a = 1"
proof (cases "a = []")
  case True
  have "calculate_ratio m (length ([] :: 'a list) + length ([] :: 'a list)) = 1" for m
    by (simp add: calculate_ratio_def)
  then have "ratio ([] :: 'a list) [] = 1"
    by (simp only: ratio_def Let_def)
  with True show ?thesis by (simp only:)
next
  case False
  have "sum_list (map (\<lambda>(i, j, k). k) (get_matching_blocks a a)) = length a"
    unfolding matches_eq gmb_loop_self [OF False] by simp
  then have "ratio a a = calculate_ratio (length a) (length a + length a)"
    by (simp only: ratio_def Let_def)
  also have "\<dots> = fl 1"
    using False by (simp add: calculate_ratio_def fdiv_def)
  finally show ?thesis
    by (simp only: fl_one)
qed

section \<open>Lemmas about the deduplication loops\<close>

subsection \<open>The inner loop\<close>

lemma scan_filtered_Cons:
  "scan_filtered song tth ath (f # fs) =
     (if both_exceed song f tth ath then Some (evidence song f)
      else scan_filtered song tth ath fs)"
  by (simp add: both_exceed_def evidence_def Let_def)

lemma scan_filtered_None:
  "scan_filtered song tth ath fs = None \<longleftrightarrow> (\<forall>f \<in> set fs. \<not> both_exceed song f tth ath)"
  by (induction fs) (simp_all add: scan_filtered_Cons del: scan_filtered.simps(2))

lemma scan_filtered_first:
  assumes "\<forall>f \<in> set pre. \<not> both_exceed song f tth ath" and "both_exceed song k tth ath"
  shows "scan_filtered song tth ath (pre @ k # post) = Some (evidence song k)"
  using assms
  by (induction pre) (simp_all add: scan_filtered_Cons del: scan_filtered.simps(2))

lemma scan_filtered_Some:
  assumes "scan_filtered song tth ath fs = Some r"
  shows "\<exists>pre k post. fs = pre @ k # post \<and> (\<forall>f \<in> set pre. \<not> both_exceed song f tth ath)
           \<and> both_exceed song k tth ath \<and> r = evidence song k"
  using assms
proof (induction fs)
  case Nil
  then show ?case by simp
next
  case (Cons f fs)
  show ?case
  proof (cases "both_exceed song f tth ath")
    case True
    with Cons.prems have "r = evidence song f"
      by (simp add: scan_filtered_Cons del: scan_filtered.simps(2))
    with True have "f # fs = [] @ f # fs \<and> (\<forall>x \<in> set []. \<not> both_exceed song x tth ath)
        \<and> both_exceed song f tth ath \<and> r = evidence song f"
      by simp
    then show ?thesis by blast
  next
    case False
    with Cons.prems have "scan_filtered song tth ath fs = Some r"
      by (simp add: scan_filtered_Cons del: scan_filtered.simps(2))
    from Cons.IH [OF this] obtain pre k post where
      "fs = pre @ k # post" "\<forall>x \<in> set pre. \<not> both_exceed song x tth ath"
      "both_exceed song k tth ath" "r = evidence song k"
      by blast
    with False have "f # fs = (f # pre) @ k # post
        \<and> (\<forall>x \<in> set (f # pre). \<not> both_exceed song x tth ath)
        \<and> both_exceed song k tth ath \<and> r = evidence song k"
      by simp
    then show ?thesis by blast
  qed
qed

lemma scan_filtered_fields:
  assumes "scan_filtered song tth ath fs = Some r"
  shows "cancion r = song \<and> similar_a r \<in> set fs \<and> both_exceed song (similar_a r) tth ath"
proof -
  from scan_filtered_Some [OF assms] obtain pre k post where
    "fs = pre @ k # post" "both_exceed song k tth ath" "r = evidence song k"
    by blast
  then show ?thesis by (simp add: evidence_def)
qed

subsection \<open>The outer loop\<close>

lemma dedup_loop_append:
  "dedup_loop (xs @ ys) tth ath st = dedup_loop ys tth ath (dedup_loop xs tth ath st)"
proof (induction xs arbitrary: st)
  case Nil
  show ?case by simp
next
  case (Cons x xs)
  obtain filtered removed where st: "st = (filtered, removed)"
    by (cases st)
  show ?case
  proof (cases "scan_filtered x tth ath filtered")
    case None
    then show ?thesis by (simp add: st Cons.IH)
  next
    case (Some r)
    then show ?thesis by (simp add: st Cons.IH)
  qed
qed

lemma dedup_loop_kept:
  assumes "scan_filtered song tth ath filtered = None"
  shows "dedup_loop (song # songs) tth ath (filtered, removed)
         = dedup_loop songs tth ath (filtered @ [song], removed)"
  using assms by simp

lemma dedup_loop_removed:
  assumes "scan_filtered song tth ath filtered = Some r"
  shows "dedup_loop (song # songs) tth ath (filtered, removed)
         = dedup_loop songs tth ath (filtered, removed @ [r])"
  using assms by simp

text \<open>
  The loop splits its input by position: a list of flags, one per input entry, says which
  entries were appended to \<open>filtered_songs\<close> and which to \<open>removed_songs\<close>.
\<close>

lemma dedup_loop_partition:
  assumes "dedup_loop xs tth ath (k0, r0) = (k, r)"
  shows "\<exists>flags k' r'. k = k0 @ k' \<and> r = r0 @ r' \<and> length flags = length xs
           \<and> k' = map fst (filter snd (zip xs flags))
           \<and> map cancion r' = map fst (filter (\<lambda>p. \<not> snd p) (zip xs flags))"
  using assms
proof (induction xs arbitrary: k0 r0)
  case Nil
  show ?case
    by (rule exI [of _ "[]"], rule exI [of _ "[]"], rule exI [of _ "[]"]) (use Nil in simp)
next
  case (Cons x xs)
  show ?case
  proof (cases "scan_filtered x tth ath k0")
    case None
    with Cons.prems have "dedup_loop xs tth ath (k0 @ [x], r0) = (k, r)"
      by simp
    from Cons.IH [OF this] obtain flags k' r' where
      h: "k = (k0 @ [x]) @ k'" "r = r0 @ r'" "length flags = length xs"
         "k' = map fst (filter snd (zip xs flags))"
         "map cancion r' = map fst (filter (\<lambda>p. \<not> snd p) (zip xs flags))"
      by blast
    show ?thesis
      by (rule exI [of _ "True # flags"], rule exI [of _ "x # k'"], rule exI [of _ r'])
        (use h in simp)
  next
    case (Some e)
    then have e: "cancion e = x"
      by (simp add: scan_filtered_fields)
    from Some Cons.prems have "dedup_loop xs tth ath (k0, r0 @ [e]) = (k, r)"
      by simp
    from Cons.IH [OF this] obtain flags k' r' where
      h: "k = k0 @ k'" "r = (r0 @ [e]) @ r'" "length flags = length xs"
         "k' = map fst (filter snd (zip xs flags))"
         "map cancion r' = map fst (filter (\<lambda>p. \<not> snd p) (zip xs flags))"
      by blast
    show ?thesis
      by (rule exI [of _ "False # flags"], rule exI [of _ k'], rule exI [of _ "e # r'"])
        (use h e in simp)
  qed
qed

lemma flags_length:
  assumes "length flags = length xs"
  shows "length (map fst (filter snd (zip xs flags)))
         + length (map fst (filter (\<lambda>p. \<not> snd p) (zip xs flags))) = length xs"
proof -
  have "length (filter snd (zip xs flags)) + length (filter (\<lambda>p. \<not> snd p) (zip xs flags))
        = length (zip xs flags)"
    by (rule sum_length_filter_compl)
  with assms show ?thesis by simp
qed

lemma flags_mset:
  assumes "length flags = length xs"
  shows "mset (map fst (filter snd (zip xs flags)))
         + mset (map fst (filter (\<lambda>p. \<not> snd p) (zip xs flags))) = mset xs"
proof -
  have "mset (filter snd (zip xs flags)) + mset (filter (\<lambda>p. \<not> snd p) (zip xs flags))
        = mset (zip xs flags)"
    by (induction "zip xs flags" arbitrary: xs flags) simp_all
  then have "mset (map fst (filter snd (zip xs flags)))
        + mset (map fst (filter (\<lambda>p. \<not> snd p) (zip xs flags))) = mset (map fst (zip xs flags))"
    by (metis image_mset_union mset_map)
  with assms show ?thesis by simp
qed

lemma flags_subseq:
  assumes "length flags = length xs"
  shows "subseq (map fst (filter P (zip xs flags))) xs"
proof -
  have "subseq (map fst (filter P (zip xs flags))) (map fst (zip xs flags))"
    by (rule subseq_map) simp
  with assms show ?thesis by simp
qed

lemma flags_disjoint:
  assumes "length flags = length xs" and "distinct xs"
  shows "set (map fst (filter snd (zip xs flags)))
         \<inter> set (map fst (filter (\<lambda>p. \<not> snd p) (zip xs flags))) = {}"
proof -
  have d: "distinct (map fst (zip xs flags))"
    using assms by simp
  { fix x
    assume "(x, True) \<in> set (zip xs flags)" and "(x, False) \<in> set (zip xs flags)"
    with d have False
      by (metis eq_key_imp_eq_value) }
  then show ?thesis by auto
qed

lemma dedup_loop_evidence:
  assumes "dedup_loop xs tth ath (k0, r0) = (k, r)"
    and "\<forall>e \<in> set r0. similar_a e \<in> set k0 \<and> both_exceed (cancion e) (similar_a e) tth ath"
  shows "set k0 \<subseteq> set k
         \<and> (\<forall>e \<in> set r. similar_a e \<in> set k \<and> both_exceed (cancion e) (similar_a e) tth ath)"
  using assms
proof (induction xs arbitrary: k0 r0)
  case Nil
  then show ?case by simp
next
  case (Cons x xs)
  show ?case
  proof (cases "scan_filtered x tth ath k0")
    case None
    with Cons.prems(1) have run: "dedup_loop xs tth ath (k0 @ [x], r0) = (k, r)"
      by simp
    have "\<forall>e \<in> set r0. similar_a e \<in> set (k0 @ [x])
            \<and> both_exceed (cancion e) (similar_a e) tth ath"
      using Cons.prems(2) by simp
    from Cons.IH [OF run this] show ?thesis by simp
  next
    case (Some e)
    with Cons.prems(1) have run: "dedup_loop xs tth ath (k0, r0 @ [e]) = (k, r)"
      by simp
    have "\<forall>e' \<in> set (r0 @ [e]). similar_a e' \<in> set k0
            \<and> both_exceed (cancion e') (similar_a e') tth ath"
      using Cons.prems(2) scan_filtered_fields [OF Some] by simp
    from Cons.IH [OF run this] show ?thesis .
  qed
qed

lemma dedup_loop_fixed:
  assumes "dedup_loop xs tth ath (k0, r0) = (k, r)"
    and "dedup_loop k0 tth ath ([], []) = (k0, [])"
  shows "dedup_loop k tth ath ([], []) = (k, [])"
  using assms
proof (induction xs arbitrary: k0 r0)
  case Nil
  then show ?case by simp
next
  case (Cons x xs)
  show ?case
  proof (cases "scan_filtered x tth ath k0")
    case None
    with Cons.prems(1) have run: "dedup_loop xs tth ath (k0 @ [x], r0) = (k, r)"
      by simp
    have "dedup_loop (k0 @ [x]) tth ath ([], []) = (k0 @ [x], [])"
      using None Cons.prems(2) by (simp add: dedup_loop_append)
    from Cons.IH [OF run this] show ?thesis .
  next
    case (Some e)
    with Cons.prems(1) have run: "dedup_loop xs tth ath (k0, r0 @ [e]) = (k, r)"
      by simp
    from Cons.IH [OF run Cons.prems(2)] show ?thesis .
  qed
qed

lemma dedup_loop_extends:
  assumes "dedup_loop xs tth ath (k0, r0) = (k, r)"
  shows "\<exists>k' r'. k = k0 @ k' \<and> r = r0 @ r' \<and> subseq k' xs \<and> subseq (map cancion r') xs"
proof -
  from dedup_loop_partition [OF assms] obtain flags k' r' where
    h: "k = k0 @ k'" "r = r0 @ r'" "length flags = length xs"
       "k' = map fst (filter snd (zip xs flags))"
       "map cancion r' = map fst (filter (\<lambda>p. \<not> snd p) (zip xs flags))"
    by auto
  have "subseq k' xs" "subseq (map cancion r') xs"
    unfolding h(4,5) by (rule flags_subseq [OF h(3)])+
  with h(1,2) show ?thesis by (intro exI [of _ k'] exI [of _ r']) simp
qed

lemma hey_jude_run:
  "remove_similar_songs [hey_jude, hey_jude_lower, let_it_be] (fl (4 / 5)) (fl (9 / 10))
   = ([hey_jude, let_it_be],
      [\<lparr>cancion = hey_jude_lower, similar_a = hey_jude,
        similaridad_titulo = 1, similaridad_artista = 1\<rparr>])"
  by code_simp

lemma hey_jude_distinct: "distinct [hey_jude, hey_jude_lower, let_it_be]"
  by code_simp

section \<open>Properties of \<open>remove_similar_songs\<close>\<close>

text \<open>
  Claim C1. For every list of songs and every pair of thresholds the result
  \<open>(kept, removed)\<close> of \<open>remove_similar_songs\<close> splits the input by position: the two
  lengths add up to the length of the input; there is one flag per input position that
  says whether the entry at that position went to \<open>kept\<close> or became the \<open>cancion\<close> of a
  record of \<open>removed\<close>, so every occurrence of an entry is in exactly one of the two (as
  multisets, \<open>kept\<close> and the removed entries add up to the input); \<open>kept\<close> and the removed
  entries are subsequences of the input, so \<open>kept\<close> keeps the input order; and when the
  input entries are pairwise different no entry is in both.
\<close>

theorem remove_similar_songs_partition:
  assumes "remove_similar_songs songs tth ath = (kept, removed)"
  shows "length kept + length removed = length songs
    \<and> (\<exists>flags. length flags = length songs
          \<and> kept = map fst (filter snd (zip songs flags))
          \<and> map cancion removed = map fst (filter (\<lambda>p. \<not> snd p) (zip songs flags)))
    \<and> mset kept + mset (map cancion removed) = mset songs
    \<and> subseq kept songs
    \<and> subseq (map cancion removed) songs
    \<and> (distinct songs \<longrightarrow> set kept \<inter> set (map cancion removed) = {})"
proof -
  from assms have "dedup_loop songs tth ath ([], []) = (kept, removed)"
    by (simp add: remove_similar_songs_def)
  from dedup_loop_partition [OF this] obtain flags where
    len: "length flags = length songs"
    and k: "kept = map fst (filter snd (zip songs flags))"
    and r: "map cancion removed = map fst (filter (\<lambda>p. \<not> snd p) (zip songs flags))"
    by auto
  have "length kept + length (map cancion removed) = length songs"
    unfolding k r by (rule flags_length [OF len])
  then have c1: "length kept + length removed = length songs"
    by simp
  have c2: "\<exists>flags. length flags = length songs
          \<and> kept = map fst (filter snd (zip songs flags))
          \<and> map cancion removed = map fst (filter (\<lambda>p. \<not> snd p) (zip songs flags))"
    using len k r by (intro exI [of _ flags]) simp
  have c3: "mset kept + mset (map cancion removed) = mset songs"
    unfolding k r by (rule flags_mset [OF len])
  have c4: "subseq kept songs"
    unfolding k by (rule flags_subseq [OF len])
  have c5: "subseq (map cancion removed) songs"
    unfolding r by (rule flags_subseq [OF len])
  have c6: "distinct songs \<longrightarrow> set kept \<inter> set (map cancion removed) = {}"
    unfolding k r using flags_disjoint [OF len] by blast
  from c1 c2 c3 c4 c5 c6 show ?thesis by blast
qed

theorem remove_similar_songs_partition_witness:
  "remove_similar_songs [hey_jude, hey_jude_lower, let_it_be] (fl (4 / 5)) (fl (9 / 10))
   = ([hey_jude, let_it_be],
      [\<lparr>cancion = hey_jude_lower, similar_a = hey_jude,
        similaridad_titulo = 1, similaridad_artista = 1\<rparr>])
   \<and> length [hey_jude, let_it_be]
       + length [\<lparr>cancion = hey_jude_lower, similar_a = hey_jude,
                  similaridad_titulo = 1, similaridad_artista = 1\<rparr>]
     = length [hey_jude, hey_jude_lower, let_it_be]
   \<and> subseq [hey_jude, let_it_be] [hey_jude, hey_jude_lower, let_it_be]
   \<and> distinct [hey_jude, hey_jude_lower, let_it_be]
   \<and> set [hey_jude, let_it_be]
       \<inter> set (map cancion [\<lparr>cancion = hey_jude_lower, similar_a = hey_jude,
                               similaridad_titulo = 1, similaridad_artista = 1\<rparr>]) = {}"
proof -
  note p = remove_similar_songs_partition [OF hey_jude_run]
  from p have len: "length [hey_jude, let_it_be]
       + length [\<lparr>cancion = hey_jude_lower, similar_a = hey_jude,
                  similaridad_titulo = 1, similaridad_artista = 1\<rparr>]
     = length [hey_jude, hey_jude_lower, let_it_be]"
    by (rule conjunct1)
  from p have sub: "subseq [hey_jude, let_it_be] [hey_jude, hey_jude_lower, let_it_be]"
    by blast
  from p hey_jude_distinct
  have dis: "set [hey_jude, let_it_be]
       \<inter> set (map cancion [\<lparr>cancion = hey_jude_lower, similar_a = hey_jude,
                               similaridad_titulo = 1, similaridad_artista = 1\<rparr>]) = {}"
    by blast
  from hey_jude_run len sub hey_jude_distinct dis show ?thesis
    by (intro conjI)
qed

text \<open>
  Claim C2. A record of \<open>removed\<close> is only made when both similarities meet their
  thresholds: for every record, the title similarity of its \<open>cancion\<close> and its
  \<open>similar_a\<close> is at least the title threshold and the artist similarity at least the
  artist threshold. And an entry \<open>e\<close> whose artist similarity to every entry kept so far
  is below the artist threshold is kept, whatever its title similarities are (so also
  when all of them are at or above the title threshold): it is appended to \<open>kept\<close>, no
  record is made for it, and it stays in \<open>kept\<close> while the rest of the input is processed.
\<close>

theorem dual_threshold:
  assumes "remove_similar_songs pre tth ath = (kp, rp)"
  shows "(\<forall>r \<in> set rp.
            tth \<le> calculate_similarity (titulo (cancion r)) (titulo (similar_a r))
            \<and> ath \<le> calculate_similarity (artista (cancion r)) (artista (similar_a r)))
    \<and> ((\<forall>k \<in> set kp. calculate_similarity (artista e) (artista k) < ath) \<longrightarrow>
          remove_similar_songs (pre @ [e]) tth ath = (kp @ [e], rp)
          \<and> (\<exists>k' r'. remove_similar_songs (pre @ e # post) tth ath = (kp @ e # k', rp @ r')
                \<and> subseq (map cancion r') post))"
proof -
  from assms have run: "dedup_loop pre tth ath ([], []) = (kp, rp)"
    by (simp add: remove_similar_songs_def)
  have "\<forall>r \<in> set rp. both_exceed (cancion r) (similar_a r) tth ath"
    using dedup_loop_evidence [OF run] by simp
  then have c1: "\<forall>r \<in> set rp.
            tth \<le> calculate_similarity (titulo (cancion r)) (titulo (similar_a r))
            \<and> ath \<le> calculate_similarity (artista (cancion r)) (artista (similar_a r))"
    by (simp add: both_exceed_def)
  have c2: "remove_similar_songs (pre @ [e]) tth ath = (kp @ [e], rp)
          \<and> (\<exists>k' r'. remove_similar_songs (pre @ e # post) tth ath = (kp @ e # k', rp @ r')
                \<and> subseq (map cancion r') post)"
    if low: "\<forall>k \<in> set kp. calculate_similarity (artista e) (artista k) < ath"
  proof -
    from low have "\<forall>k \<in> set kp. \<not> both_exceed e k tth ath"
      by (auto simp: both_exceed_def)
    then have none: "scan_filtered e tth ath kp = None"
      by (simp add: scan_filtered_None)
    have one: "remove_similar_songs (pre @ [e]) tth ath = (kp @ [e], rp)"
      using run none by (simp add: remove_similar_songs_def dedup_loop_append)
    obtain k r where fin: "dedup_loop post tth ath (kp @ [e], rp) = (k, r)"
      by (cases "dedup_loop post tth ath (kp @ [e], rp)")
    from dedup_loop_extends [OF fin] obtain k' r' where
      h: "k = (kp @ [e]) @ k'" "r = rp @ r'" "subseq (map cancion r') post"
      by auto
    have "remove_similar_songs (pre @ e # post) tth ath = (kp @ e # k', rp @ r')"
      using run none fin h(1,2) by (simp add: remove_similar_songs_def dedup_loop_append)
    with h(3) have "\<exists>k' r'. remove_similar_songs (pre @ e # post) tth ath = (kp @ e # k', rp @ r')
                \<and> subseq (map cancion r') post"
      by (intro exI [of _ k'] exI [of _ r']) simp
    with one show ?thesis by simp
  qed
  from c1 c2 show ?thesis by simp
qed

theorem dual_threshold_witness:
  "remove_similar_songs [imagine_lennon] (fl (4 / 5)) (fl (9 / 10)) = ([imagine_lennon], [])
   \<and> fl (4 / 5) \<le> calculate_similarity (titulo imagine_various) (titulo imagine_lennon)
   \<and> calculate_similarity (artista imagine_various) (artista imagine_lennon) < fl (9 / 10)
   \<and> remove_similar_songs ([imagine_lennon] @ [imagine_various]) (fl (4 / 5)) (fl (9 / 10))
       = ([imagine_lennon] @ [imagine_various], [])
   \<and> fl (4 / 5) \<le> calculate_similarity (titulo hey_jude_lower) (titulo hey_jude)
   \<and> fl (9 / 10) \<le> calculate_similarity (artista hey_jude_lower) (artista hey_jude)"
proof -
  have run: "remove_similar_songs [imagine_lennon] (fl (4 / 5)) (fl (9 / 10))
             = ([imagine_lennon], [])"
    by code_simp
  have title: "fl (4 / 5) \<le> calculate_similarity (titulo imagine_various) (titulo imagine_lennon)"
    by code_simp
  have artist: "calculate_similarity (artista imagine_various) (artista imagine_lennon)
                < fl (9 / 10)"
    by code_simp
  then have low: "\<forall>k \<in> set [imagine_lennon].
                    calculate_similarity (artista imagine_various) (artista k) < fl (9 / 10)"
    by simp
  from dual_threshold [OF run, of imagine_various "[]"] low
  have kept: "remove_similar_songs ([imagine_lennon] @ [imagine_various]) (fl (4 / 5)) (fl (9 / 10))
              = ([imagine_lennon] @ [imagine_various], [])"
    by blast
  from dual_threshold [OF hey_jude_run, of hey_jude "[]"]
  have both: "fl (4 / 5) \<le> calculate_similarity (titulo hey_jude_lower) (titulo hey_jude)
              \<and> fl (9 / 10) \<le> calculate_similarity (artista hey_jude_lower) (artista hey_jude)"
    by simp
  from run title artist kept both show ?thesis
    by (intro conjI) simp_all
qed

text \<open>
  Claim C3. First match wins. \<open>find\<close> returns the first entry of a list that satisfies
  a test, so \<open>k\<close> below is the earliest entry of \<open>kept\<close>, in insertion order, that
  passes both thresholds against \<open>e\<close>. Whenever there is such an entry, processing \<open>e\<close>
  leaves \<open>kept\<close> as it is and appends exactly one record, whose \<open>cancion\<close> is \<open>e\<close> and
  whose \<open>similar_a\<close> is \<open>k\<close>; nothing is asked of the entries after \<open>k\<close>, which may
  score higher, and the loop goes on with the rest of the input from that state.
\<close>

theorem first_match_wins:
  assumes "remove_similar_songs pre tth ath = (kp, rp)"
    and "find (\<lambda>f. both_exceed e f tth ath) kp = Some k"
  shows "remove_similar_songs (pre @ [e]) tth ath = (kp, rp @ [evidence e k])
    \<and> remove_similar_songs (pre @ e # post) tth ath
        = dedup_loop post tth ath (kp, rp @ [evidence e k])
    \<and> cancion (evidence e k) = e \<and> similar_a (evidence e k) = k
    \<and> (\<exists>k1 k2. kp = k1 @ k # k2 \<and> (\<forall>f \<in> set k1. \<not> both_exceed e f tth ath)
          \<and> both_exceed e k tth ath)"
proof -
  from assms(1) have run: "dedup_loop pre tth ath ([], []) = (kp, rp)"
    by (simp add: remove_similar_songs_def)
  from assms(2) obtain i where
    i: "i < length kp" "both_exceed e (kp ! i) tth ath" "k = kp ! i"
       "\<forall>j < i. \<not> both_exceed e (kp ! j) tth ath"
    by (auto simp: find_Some_iff)
  define k1 where "k1 = take i kp"
  define k2 where "k2 = drop (Suc i) kp"
  have split: "kp = k1 @ k # k2"
    using i(1,3) by (simp add: k1_def k2_def id_take_nth_drop)
  have first: "\<forall>f \<in> set k1. \<not> both_exceed e f tth ath"
  proof
    fix f
    assume "f \<in> set k1"
    then obtain j where "j < length k1" "f = k1 ! j"
      by (auto simp: in_set_conv_nth)
    then have "j < i" "f = kp ! j"
      by (simp_all add: k1_def)
    with i(4) show "\<not> both_exceed e f tth ath" by simp
  qed
  have hit: "both_exceed e k tth ath"
    using i(2,3) by simp
  have scan: "scan_filtered e tth ath kp = Some (evidence e k)"
    unfolding split by (rule scan_filtered_first [OF first hit])
  have c1: "remove_similar_songs (pre @ [e]) tth ath = (kp, rp @ [evidence e k])"
    using run scan by (simp add: remove_similar_songs_def dedup_loop_append)
  have c2: "remove_similar_songs (pre @ e # post) tth ath
        = dedup_loop post tth ath (kp, rp @ [evidence e k])"
    using run scan by (simp add: remove_similar_songs_def dedup_loop_append)
  have c3: "cancion (evidence e k) = e \<and> similar_a (evidence e k) = k"
    by (simp add: evidence_def)
  have c4: "\<exists>k1 k2. kp = k1 @ k # k2 \<and> (\<forall>f \<in> set k1. \<not> both_exceed e f tth ath)
          \<and> both_exceed e k tth ath"
    using split first hit by (intro exI [of _ k1] exI [of _ k2]) simp
  from c1 c2 c3 c4 show ?thesis by simp
qed

theorem first_match_wins_witness:
  "remove_similar_songs [yesterday, yesterday_mix_2] (fl (4 / 5)) (fl (9 / 10))
   = ([yesterday, yesterday_mix_2], [])
   \<and> find (\<lambda>f. both_exceed yesterday_mix f (fl (4 / 5)) (fl (9 / 10)))
        [yesterday, yesterday_mix_2] = Some yesterday
   \<and> both_exceed yesterday_mix yesterday_mix_2 (fl (4 / 5)) (fl (9 / 10))
   \<and> calculate_similarity (titulo yesterday_mix) (titulo yesterday)
       < calculate_similarity (titulo yesterday_mix) (titulo yesterday_mix_2)
   \<and> remove_similar_songs ([yesterday, yesterday_mix_2] @ [yesterday_mix])
        (fl (4 / 5)) (fl (9 / 10))
       = ([yesterday, yesterday_mix_2], [] @ [evidence yesterday_mix yesterday])
   \<and> similar_a (evidence yesterday_mix yesterday) = yesterday"
proof -
  have run: "remove_similar_songs [yesterday, yesterday_mix_2] (fl (4 / 5)) (fl (9 / 10))
             = ([yesterday, yesterday_mix_2], [])"
    by code_simp
  have first: "find (\<lambda>f. both_exceed yesterday_mix f (fl (4 / 5)) (fl (9 / 10)))
                 [yesterday, yesterday_mix_2] = Some yesterday"
    by code_simp
  have later: "both_exceed yesterday_mix yesterday_mix_2 (fl (4 / 5)) (fl (9 / 10))"
    by code_simp
  have higher: "calculate_similarity (titulo yesterday_mix) (titulo yesterday)
       < calculate_similarity (titulo yesterday_mix) (titulo yesterday_mix_2)"
    by code_simp
  note w = first_match_wins [OF run first, of "[]"]
  from w have one: "remove_similar_songs ([yesterday, yesterday_mix_2] @ [yesterday_mix])
        (fl (4 / 5)) (fl (9 / 10))
       = ([yesterday, yesterday_mix_2], [] @ [evidence yesterday_mix yesterday])"
    by (rule conjunct1)
  from w have sim: "similar_a (evidence yesterday_mix yesterday) = yesterday"
    by blast
  from run first later higher one sim show ?thesis
    by (intro conjI)
qed

text \<open>
  Claim C9. \<open>remove_similar_songs\<close> is idempotent: run again on the list it kept, with
  the same thresholds, it keeps that list as it is and removes nothing.
\<close>

theorem remove_similar_songs_idempotent:
  "remove_similar_songs (fst (remove_similar_songs songs tth ath)) tth ath
   = (fst (remove_similar_songs songs tth ath), [])"
proof -
  obtain k r where run: "dedup_loop songs tth ath ([], []) = (k, r)"
    by (cases "dedup_loop songs tth ath ([], [])")
  have "dedup_loop k tth ath ([], []) = (k, [])"
    by (rule dedup_loop_fixed [OF run]) simp
  with run show ?thesis by (simp add: remove_similar_songs_def)
qed

theorem remove_similar_songs_idempotent_witness:
  "fst (remove_similar_songs [hey_jude, hey_jude_lower, let_it_be] (fl (4 / 5)) (fl (9 / 10)))
   = [hey_jude, let_it_be]
   \<and> remove_similar_songs [hey_jude, let_it_be] (fl (4 / 5)) (fl (9 / 10))
       = ([hey_jude, let_it_be], [])"
proof -
  have k: "fst (remove_similar_songs [hey_jude, hey_jude_lower, let_it_be]
                  (fl (4 / 5)) (fl (9 / 10))) = [hey_jude, let_it_be]"
    by (simp add: hey_jude_run)
  from remove_similar_songs_idempotent [of "[hey_jude, hey_jude_lower, let_it_be]"
         "fl (4 / 5)" "fl (9 / 10)"]
  have "remove_similar_songs [hey_jude, let_it_be] (fl (4 / 5)) (fl (9 / 10))
        = ([hey_jude, let_it_be], [])"
    unfolding k .
  with k show ?thesis by (intro conjI)
qed

text \<open>
  Claim C10. Every record of \<open>removed\<close> names a kept entry: its \<open>similar_a\<close> is an
  element of the returned \<open>kept\<close> list. When the input entries are pairwise different,
  the \<open>similar_a\<close> of a record is therefore not the removed entry of any record.
\<close>

theorem evidence_names_kept_entry:
  assumes "remove_similar_songs songs tth ath = (kept, removed)"
  shows "(\<forall>r \<in> set removed. similar_a r \<in> set kept)
    \<and> (distinct songs \<longrightarrow> (\<forall>r \<in> set removed. similar_a r \<notin> set (map cancion removed)))"
proof -
  from assms have run: "dedup_loop songs tth ath ([], []) = (kept, removed)"
    by (simp add: remove_similar_songs_def)
  have c1: "\<forall>r \<in> set removed. similar_a r \<in> set kept"
    using dedup_loop_evidence [OF run] by simp
  have c2: "\<forall>r \<in> set removed. similar_a r \<notin> set (map cancion removed)" if "distinct songs"
  proof -
    from remove_similar_songs_partition [OF assms] that
    have "set kept \<inter> set (map cancion removed) = {}"
      by blast
    with c1 show ?thesis by blast
  qed
  from c1 c2 show ?thesis by simp
qed

theorem evidence_names_kept_entry_witness:
  "remove_similar_songs [hey_jude, hey_jude_lower, let_it_be] (fl (4 / 5)) (fl (9 / 10))
   = ([hey_jude, let_it_be],
      [\<lparr>cancion = hey_jude_lower, similar_a = hey_jude,
        similaridad_titulo = 1, similaridad_artista = 1\<rparr>])
   \<and> hey_jude \<in> set [hey_jude, let_it_be]
   \<and> distinct [hey_jude, hey_jude_lower, let_it_be]
   \<and> hey_jude \<notin> set (map cancion [\<lparr>cancion = hey_jude_lower, similar_a = hey_jude,
                                      similaridad_titulo = 1, similaridad_artista = 1\<rparr>])"
proof -
  note w = evidence_names_kept_entry [OF hey_jude_run]
  from w have a: "hey_jude \<in> set [hey_jude, let_it_be]"
    by simp
  from w hey_jude_distinct
  have b: "hey_jude \<notin> set (map cancion [\<lparr>cancion = hey_jude_lower, similar_a = hey_jude,
                                      similaridad_titulo = 1, similaridad_artista = 1\<rparr>])"
    by simp
  from hey_jude_run a hey_jude_distinct b show ?thesis
    by (intro conjI)
qed

section \<open>Properties of the match selector\<close>

lemma best_loop_Cons:
  "best_loop title artist (item # items) (best_score, best_video) =
     (if best_score < candidate_score title artist item
      then best_loop title artist items (candidate_score title artist item, Some item)
      else best_loop title artist items (best_score, best_video))"
  by (simp add: candidate_score_def Let_def)

lemma best_loop_result:
  "best_loop title artist items (bs, bv) =
     (if \<forall>it \<in> set items. candidate_score title artist it \<le> bs then (bs, bv)
      else (Max (candidate_score title artist ` set items),
            find (\<lambda>it. candidate_score title artist it
                        = Max (candidate_score title artist ` set items)) items))"
proof (induction items arbitrary: bs bv)
  case Nil
  show ?case by simp
next
  case (Cons item items)
  let ?sc = "candidate_score title artist"
  show ?case
  proof (cases "\<forall>it \<in> set items. ?sc it \<le> max bs (?sc item)")
    case True
    then have top: "Max (?sc ` set (item # items)) = ?sc item" if "bs < ?sc item"
      using that by (intro Max_eqI) (auto simp: max_def)
    show ?thesis
    proof (cases "bs < ?sc item")
      case up: True
      with True have "\<forall>it \<in> set items. ?sc it \<le> ?sc item"
        by (simp add: max_def)
      with up top show ?thesis
        by (simp add: best_loop_Cons Cons.IH del: best_loop.simps(2))
    next
      case False
      with True have "\<forall>it \<in> set (item # items). ?sc it \<le> bs"
        by (simp add: max_def)
      with False show ?thesis
        by (simp add: best_loop_Cons Cons.IH del: best_loop.simps(2))
    qed
  next
    case False
    then obtain x where x: "x \<in> set items" "max bs (?sc item) < ?sc x"
      by (auto simp: not_le)
    have fin: "finite (?sc ` set items)" "?sc ` set items \<noteq> {}"
      using x(1) by auto
    have big: "max bs (?sc item) < Max (?sc ` set items)"
      using x fin by (meson Max_ge image_eqI less_le_trans)
    have lt: "?sc item < Max (?sc ` set items)"
      using big by simp
    have mx: "Max (?sc ` set (item # items)) = Max (?sc ` set items)"
      using fin lt by (simp add: max_def)
    have ne: "?sc item \<noteq> Max (?sc ` set items)"
      using lt by simp
    have nall: "\<not> (\<forall>it \<in> set (item # items). ?sc it \<le> bs)"
      using x by (auto simp: not_le)
    have nall1: "\<not> (\<forall>it \<in> set items. ?sc it \<le> bs)"
      using x by (auto simp: not_le)
    have nall2: "\<not> (\<forall>it \<in> set items. ?sc it \<le> ?sc item)"
      using x by (auto simp: not_le)
    show ?thesis
    proof (cases "bs < ?sc item")
      case True
      have "best_loop title artist (item # items) (bs, bv)
            = best_loop title artist items (?sc item, Some item)"
        using True by (simp add: best_loop_Cons del: best_loop.simps(2))
      also have "\<dots> = (Max (?sc ` set items),
                        find (\<lambda>it. ?sc it = Max (?sc ` set items)) items)"
        unfolding Cons.IH by (rule if_not_P [OF nall2])
      finally have "best_loop title artist (item # items) (bs, bv)
            = (Max (?sc ` set items), find (\<lambda>it. ?sc it = Max (?sc ` set items)) items)" .
      moreover have "find (\<lambda>it. ?sc it = Max (?sc ` set (item # items))) (item # items)
            = find (\<lambda>it. ?sc it = Max (?sc ` set items)) items"
        unfolding mx using ne by simp
      ultimately show ?thesis
        unfolding if_not_P [OF nall] mx by simp
    next
      case False
      have "best_loop title artist (item # items) (bs, bv)
            = best_loop title artist items (bs, bv)"
        using False by (simp add: best_loop_Cons del: best_loop.simps(2))
      also have "\<dots> = (Max (?sc ` set items),
                        find (\<lambda>it. ?sc it = Max (?sc ` set items)) items)"
        unfolding Cons.IH by (rule if_not_P [OF nall1])
      finally have "best_loop title artist (item # items) (bs, bv)
            = (Max (?sc ` set items), find (\<lambda>it. ?sc it = Max (?sc ` set items)) items)" .
      moreover have "find (\<lambda>it. ?sc it = Max (?sc ` set (item # items))) (item # items)
            = find (\<lambda>it. ?sc it = Max (?sc ` set items)) items"
        unfolding mx using ne by simp
      ultimately show ?thesis
        unfolding if_not_P [OF nall] mx by simp
    qed
  qed
qed

lemma find_first:
  assumes "find P xs = Some x"
  shows "\<exists>pre post. xs = pre @ x # post \<and> P x \<and> (\<forall>y \<in> set pre. \<not> P y)"
proof -
  from assms obtain i where
    i: "i < length xs" "P (xs ! i)" "x = xs ! i" "\<forall>j < i. \<not> P (xs ! j)"
    by (auto simp: find_Some_iff)
  have "xs = take i xs @ x # drop (Suc i) xs"
    using i(1,3) by (simp add: id_take_nth_drop)
  moreover have "\<forall>y \<in> set (take i xs). \<not> P y"
  proof
    fix y
    assume "y \<in> set (take i xs)"
    then obtain j where "j < length (take i xs)" "y = take i xs ! j"
      by (auto simp: in_set_conv_nth)
    then have "j < i" "y = xs ! j"
      by simp_all
    with i(4) show "\<not> P y" by simp
  qed
  ultimately show ?thesis
    using i(2,3) by (intro exI [of _ "take i xs"] exI [of _ "drop (Suc i) xs"]) simp
qed

lemma select_best_eq:
  "select_best title artist items =
     (if items = [] \<or> Max (candidate_score title artist ` set items) \<le> 1 / 2 then None
      else find (\<lambda>it. candidate_score title artist it
                       = Max (candidate_score title artist ` set items)) items)"
proof (cases "\<forall>it \<in> set items. candidate_score title artist it \<le> 0")
  case True
  then have loop: "best_loop title artist items (0, None) = (0, None)"
    by (simp add: best_loop_result)
  have "items = [] \<or> Max (candidate_score title artist ` set items) \<le> 1 / 2"
  proof (cases "items = []")
    case False
    then have "Max (candidate_score title artist ` set items) \<le> 0"
      using True by (subst Max_le_iff) auto
    then show ?thesis by simp
  qed simp
  with loop show ?thesis
    by (simp add: select_best_def)
next
  case False
  let ?m = "Max (candidate_score title artist ` set items)"
  from False have ne: "items \<noteq> []"
    by auto
  have loop: "best_loop title artist items (0, None)
              = (?m, find (\<lambda>it. candidate_score title artist it = ?m) items)"
    unfolding best_loop_result by (rule if_not_P [OF False])
  have "?m \<in> candidate_score title artist ` set items"
    using ne by (intro Max_in) auto
  then obtain it where "it \<in> set items" "candidate_score title artist it = ?m"
    by auto
  then have "find (\<lambda>it. candidate_score title artist it = ?m) items \<noteq> None"
    by (auto simp: find_None_iff)
  with loop ne show ?thesis
    by (auto simp: select_best_def not_le)
qed

text \<open>
  Claim C4. The selection loop scores a candidate with
  \<open>(score_title + score_artist) / 2\<close>, the mean of the title similarity and the channel
  similarity in float arithmetic (\<open>candidate_score\<close>). \<open>select_best\<close> returns no match when
  the candidate list is empty or the highest score is not greater than \<open>0.5\<close>, and
  otherwise the first candidate, in input order, whose score is the highest one. So a
  selected candidate scores above \<open>0.5\<close>, strictly higher than every candidate before it
  and at least as high as every candidate after it; and there is no match exactly when
  the list is empty or no candidate scores above \<open>0.5\<close>.
\<close>

theorem select_best_first_maximum:
  "candidate_score title artist item
     = fdiv (fadd (calculate_similarity title (snippet_title item))
                  (calculate_similarity artist
                     (case snippet_channelTitle item of None \<Rightarrow> [] | Some c \<Rightarrow> c))) 2
   \<and> select_best title artist items =
       (if items = [] \<or> Max (candidate_score title artist ` set items) \<le> 1 / 2 then None
        else find (\<lambda>it. candidate_score title artist it
                         = Max (candidate_score title artist ` set items)) items)
   \<and> (select_best title artist items = Some item \<longrightarrow>
        1 / 2 < candidate_score title artist item
        \<and> (\<exists>pre post. items = pre @ item # post
              \<and> (\<forall>x \<in> set pre. candidate_score title artist x < candidate_score title artist item)
              \<and> (\<forall>x \<in> set post. candidate_score title artist x
                                    \<le> candidate_score title artist item)))
   \<and> (select_best title artist items = None \<longleftrightarrow>
        items = [] \<or> (\<forall>x \<in> set items. candidate_score title artist x \<le> 1 / 2))"
proof -
  let ?sc = "candidate_score title artist"
  let ?m = "Max (?sc ` set items)"
  have c1: "?sc item
     = fdiv (fadd (calculate_similarity title (snippet_title item))
                  (calculate_similarity artist
                     (case snippet_channelTitle item of None \<Rightarrow> [] | Some c \<Rightarrow> c))) 2"
    by (simp add: candidate_score_def)
  note c2 = select_best_eq [of title artist items]
  have c3: "1 / 2 < ?sc item
        \<and> (\<exists>pre post. items = pre @ item # post
              \<and> (\<forall>x \<in> set pre. ?sc x < ?sc item) \<and> (\<forall>x \<in> set post. ?sc x \<le> ?sc item))"
    if sel: "select_best title artist items = Some item"
  proof -
    from sel c2 have ne: "items \<noteq> []" and big: "1 / 2 < ?m"
      and f: "find (\<lambda>it. ?sc it = ?m) items = Some item"
      by (auto split: if_splits)
    from find_first [OF f] obtain pre post where
      sp: "items = pre @ item # post" and m: "?sc item = ?m"
      and pre: "\<forall>y \<in> set pre. ?sc y \<noteq> ?m"
      by blast
    have le: "?sc x \<le> ?m" if "x \<in> set items" for x
      using that by (intro Max_ge) auto
    have a: "\<forall>x \<in> set pre. ?sc x < ?sc item"
    proof
      fix x
      assume x: "x \<in> set pre"
      then have "x \<in> set items" by (simp add: sp)
      from le [OF this] pre x m show "?sc x < ?sc item" by auto
    qed
    have b: "\<forall>x \<in> set post. ?sc x \<le> ?sc item"
    proof
      fix x
      assume "x \<in> set post"
      then have "x \<in> set items" by (simp add: sp)
      from le [OF this] m show "?sc x \<le> ?sc item" by simp
    qed
    from sp a b have "\<exists>pre post. items = pre @ item # post
              \<and> (\<forall>x \<in> set pre. ?sc x < ?sc item) \<and> (\<forall>x \<in> set post. ?sc x \<le> ?sc item)"
      by (intro exI [of _ pre] exI [of _ post]) simp
    with big m show ?thesis by simp
  qed
  have c4: "select_best title artist items = None \<longleftrightarrow>
        items = [] \<or> (\<forall>x \<in> set items. ?sc x \<le> 1 / 2)"
  proof (cases "items = []")
    case True
    then show ?thesis unfolding c2 by simp
  next
    case False
    then have mx: "?m \<le> 1 / 2 \<longleftrightarrow> (\<forall>x \<in> set items. ?sc x \<le> 1 / 2)"
      by (subst Max_le_iff) auto
    have "?m \<in> ?sc ` set items"
      using False by (intro Max_in) auto
    then obtain it where "it \<in> set items" "?sc it = ?m"
      by auto
    then have "find (\<lambda>it. ?sc it = ?m) items \<noteq> None"
      by (auto simp: find_None_iff)
    with False mx show ?thesis
      unfolding c2 by auto
  qed
  from c1 c2 c3 c4 show ?thesis by blast
qed

theorem select_best_first_maximum_witness:
  "select_best ''Imagine'' ''John Lennon'' [cover_video, lennon_video, lennon_video_upper]
     = Some lennon_video
   \<and> candidate_score ''Imagine'' ''John Lennon'' lennon_video_upper
       = candidate_score ''Imagine'' ''John Lennon'' lennon_video
   \<and> 1 / 2 < candidate_score ''Imagine'' ''John Lennon'' lennon_video
   \<and> candidate_score ''Imagine'' ''John Lennon'' untitled_channel_video = 1 / 2
   \<and> select_best ''Imagine'' ''John Lennon'' [untitled_channel_video] = None
   \<and> select_best ''Imagine'' ''John Lennon'' [] = None"
proof -
  have sel: "select_best ''Imagine'' ''John Lennon''
               [cover_video, lennon_video, lennon_video_upper] = Some lennon_video"
    by code_simp
  have tie: "candidate_score ''Imagine'' ''John Lennon'' lennon_video_upper
       = candidate_score ''Imagine'' ''John Lennon'' lennon_video"
    by code_simp
  have half: "candidate_score ''Imagine'' ''John Lennon'' untitled_channel_video = 1 / 2"
    by code_simp
  from select_best_first_maximum [of "''Imagine''" "''John Lennon''" lennon_video
         "[cover_video, lennon_video, lennon_video_upper]"] sel
  have big: "1 / 2 < candidate_score ''Imagine'' ''John Lennon'' lennon_video"
    by blast
  from select_best_first_maximum [of "''Imagine''" "''John Lennon''" untitled_channel_video
         "[untitled_channel_video]"] half
  have none: "select_best ''Imagine'' ''John Lennon'' [untitled_channel_video] = None"
    by simp
  from select_best_first_maximum [of "''Imagine''" "''John Lennon''" untitled_channel_video "[]"]
  have empty: "select_best ''Imagine'' ''John Lennon'' [] = None"
    by simp
  from sel tie big half none empty show ?thesis
    by (intro conjI)
qed

section \<open>Properties of \<open>import_songs_from_csv\<close>\<close>





















section \<open>Properties of the playlist setup\<close>

text \<open>
  Claim C8, as the code has it. With songs to import, every failure to create or locate
  the destination playlist (\<open>get_youtube_client\<close> raises or is not authenticated, or a
  call of the playlist API raises) leaves \<open>playlist_id\<close> at \<open>None\<close>, and then the fallback
  file is written, with the header row and the imported pairs in order, whether or not
  the error is a quota error: the test is
  \<open>(error_str and <quota words in error_str>) or (playlist_id is None)\<close>. The branch that
  only reports the error is taken for an empty playlist id alone; any other id goes on
  to the search loop.
\<close>

theorem setup_failure_writes_fallback:
  assumes "songs \<noteq> []"
  shows "((\<forall>playlist_id. outcome \<noteq> PlaylistReady playlist_id) \<longrightarrow>
            setup_playlist songs outcome = WriteFallback (fallback_rows songs))
    \<and> setup_playlist songs (PlaylistReady []) = ReportError []
    \<and> (playlist_id \<noteq> [] \<longrightarrow> setup_playlist songs (PlaylistReady playlist_id) = Proceed playlist_id)
    \<and> fallback_rows songs = [''Title'', ''Artist''] # map (\<lambda>(t, a). [t, a]) songs"
proof -
  have c1: "setup_playlist songs outcome = WriteFallback (fallback_rows songs)"
    if "\<forall>playlist_id. outcome \<noteq> PlaylistReady playlist_id"
    using that assms by (cases outcome) (simp_all add: setup_playlist_def)
  have c2: "setup_playlist songs (PlaylistReady []) = ReportError []"
    using assms by (simp add: setup_playlist_def)
  have c3: "setup_playlist songs (PlaylistReady playlist_id) = Proceed playlist_id"
    if "playlist_id \<noteq> []"
    using that assms by (simp add: setup_playlist_def)
  have c4: "fallback_rows songs = [''Title'', ''Artist''] # map (\<lambda>(t, a). [t, a]) songs"
    by (simp add: fallback_rows_def)
  from c1 c2 c3 c4 show ?thesis by blast
qed

theorem setup_failure_writes_fallback_witness:
  "[(''Hey Jude'', ''The Beatles'')] \<noteq> []
   \<and> setup_playlist [(''Hey Jude'', ''The Beatles'')] NotAuthenticated
       = WriteFallback [[''Title'', ''Artist''], [''Hey Jude'', ''The Beatles'']]
   \<and> setup_playlist [(''Hey Jude'', ''The Beatles'')] (ApiRaised ''quotaExceeded'')
       = WriteFallback [[''Title'', ''Artist''], [''Hey Jude'', ''The Beatles'']]
   \<and> setup_playlist [(''Hey Jude'', ''The Beatles'')] (PlaylistReady ''PL1'') = Proceed ''PL1''"
proof -
  have ne: "[(''Hey Jude'', ''The Beatles'')] \<noteq> ([] :: (string \<times> string) list)"
    by simp
  note w = setup_failure_writes_fallback [OF ne]
  have rows: "fallback_rows [(''Hey Jude'', ''The Beatles'')]
              = [[''Title'', ''Artist''], [''Hey Jude'', ''The Beatles'']]"
    using w [of NotAuthenticated "''PL1''"] by simp
  have a: "setup_playlist [(''Hey Jude'', ''The Beatles'')] NotAuthenticated
       = WriteFallback [[''Title'', ''Artist''], [''Hey Jude'', ''The Beatles'']]"
    using w [of NotAuthenticated "''PL1''"] rows by simp
  have b: "setup_playlist [(''Hey Jude'', ''The Beatles'')] (ApiRaised ''quotaExceeded'')
       = WriteFallback [[''Title'', ''Artist''], [''Hey Jude'', ''The Beatles'']]"
    using w [of "ApiRaised ''quotaExceeded''" "''PL1''"] rows by simp
  have c: "setup_playlist [(''Hey Jude'', ''The Beatles'')] (PlaylistReady ''PL1'') = Proceed ''PL1''"
    using w [of NotAuthenticated "''PL1''"] by simp
  from ne a b c show ?thesis by (intro conjI)
qed

text \<open>
  The claim as the specification states it (the fallback file is written exactly when the
  failure is a quota error, any other setup failure is only reported) fails: an API call
  that raises \<open>invalid credentials\<close>, a client that raises it, and a client that is not
  authenticated all end in the fallback file.
\<close>

theorem fallback_only_on_quota_counterexample:
  "\<not> is_quota_error ''invalid credentials''
   \<and> setup_playlist [(''Hey Jude'', ''The Beatles'')] (ApiRaised ''invalid credentials'')
       = WriteFallback [[''Title'', ''Artist''], [''Hey Jude'', ''The Beatles'']]
   \<and> setup_playlist [(''Hey Jude'', ''The Beatles'')] (ClientRaised ''invalid credentials'')
       = WriteFallback [[''Title'', ''Artist''], [''Hey Jude'', ''The Beatles'']]
   \<and> setup_playlist [(''Hey Jude'', ''The Beatles'')] NotAuthenticated
       = WriteFallback [[''Title'', ''Artist''], [''Hey Jude'', ''The Beatles'']]"
  by code_simp

section \<open>Properties of \<open>calculate_similarity\<close>\<close>

lemma calculate_similarity_same_lower:
  assumes "lower a = lower b"
  shows "calculate_similarity a b = 1"
  using assms by (simp add: calculate_similarity_def ratio_self)

text \<open>
  Claim C5, as the code has it. \<open>calculate_similarity\<close> gives the same value for both
  orders of its arguments when the two strings are equal up to letter case (both orders
  give 1) and when one of them is empty (both give 0, or 1 when both are empty).
\<close>

theorem calculate_similarity_symmetric_cases:
  assumes "lower a = lower b \<or> a = [] \<or> b = []"
  shows "calculate_similarity a b = calculate_similarity b a"
proof (cases "lower a = lower b")
  case True
  then show ?thesis
    by (simp add: calculate_similarity_same_lower)
next
  case False
  with assms have e: "lower a = [] \<or> lower b = []"
    by (auto simp: lower_def)
  from False have ne: "lower a \<noteq> lower b" "lower b \<noteq> lower a"
    by simp_all
  from e have e': "lower b = [] \<or> lower a = []"
    by blast
  have "ratio (lower a) (lower b) = 0"
    by (rule ratio_empty [OF e ne(1)])
  moreover have "ratio (lower b) (lower a) = 0"
    by (rule ratio_empty [OF e' ne(2)])
  ultimately show ?thesis
    by (simp add: calculate_similarity_def)
qed

theorem calculate_similarity_symmetric_cases_witness:
  "lower ''ABC'' = lower ''abc''
   \<and> calculate_similarity ''ABC'' ''abc'' = calculate_similarity ''abc'' ''ABC''
   \<and> calculate_similarity [] ''abc'' = calculate_similarity ''abc'' []"
proof -
  have l: "lower ''ABC'' = lower ''abc''"
    by code_simp
  then have "lower ''ABC'' = lower ''abc'' \<or> ''ABC'' = [] \<or> ''abc'' = []"
    by (rule disjI1)
  from calculate_similarity_symmetric_cases [OF this]
  have a: "calculate_similarity ''ABC'' ''abc'' = calculate_similarity ''abc'' ''ABC''" .
  have "lower [] = lower ''abc'' \<or> ([] :: string) = [] \<or> ''abc'' = []"
    by simp
  from calculate_similarity_symmetric_cases [OF this]
  have b: "calculate_similarity [] ''abc'' = calculate_similarity ''abc'' []" .
  from l a b show ?thesis by (intro conjI)
qed

text \<open>
  The claim as the specification states it (symmetry for every pair of strings) fails:
  the matcher indexes its second argument and walks along the first, and the blocks it
  finds depend on which is which. \<open>tide\<close> against \<open>diet\<close> matches one character, \<open>diet\<close>
  against \<open>tide\<close> two.
\<close>

theorem calculate_similarity_symmetric_counterexample:
  "calculate_similarity ''tide'' ''diet'' = 1 / 4
   \<and> calculate_similarity ''diet'' ''tide'' = 1 / 2
   \<and> calculate_similarity ''tide'' ''diet'' \<noteq> calculate_similarity ''diet'' ''tide''"
  by code_simp

text \<open>
  Claim C6. For all strings the value of \<open>calculate_similarity\<close> lies between 0 and 1;
  a string compared with itself gives 1 (popular characters of long strings included);
  and the function does not see letter case: it gives 1 for strings that are equal up to
  letter case, such as \<open>ABC\<close> and \<open>abc\<close>, and in general changing the case of letters in
  either argument does not change the value.
\<close>

theorem calculate_similarity_range_reflexive:
  "0 \<le> calculate_similarity a b \<and> calculate_similarity a b \<le> 1
   \<and> calculate_similarity a a = 1
   \<and> (lower a = lower b \<longrightarrow> calculate_similarity a b = 1)
   \<and> (lower a = lower a' \<and> lower b = lower b'
        \<longrightarrow> calculate_similarity a b = calculate_similarity a' b')
   \<and> calculate_similarity ''ABC'' ''abc'' = 1"
proof -
  have "0 \<le> calculate_similarity a b \<and> calculate_similarity a b \<le> 1"
    unfolding calculate_similarity_def by (rule ratio_range)
  then have c0: "0 \<le> calculate_similarity a b" and c1: "calculate_similarity a b \<le> 1"
    by simp_all
  have c2: "calculate_similarity a a = 1"
    by (rule calculate_similarity_same_lower) (rule refl)
  have c3: "lower a = lower b \<longrightarrow> calculate_similarity a b = 1"
    using calculate_similarity_same_lower by blast
  have c4: "lower a = lower a' \<and> lower b = lower b'
        \<longrightarrow> calculate_similarity a b = calculate_similarity a' b'"
    by (simp add: calculate_similarity_def)
  have "lower ''ABC'' = lower ''abc''"
    by code_simp
  then have c5: "calculate_similarity ''ABC'' ''abc'' = 1"
    by (rule calculate_similarity_same_lower)
  from c0 c1 c2 c3 c4 c5 show ?thesis by (intro conjI)
qed

theorem calculate_similarity_range_reflexive_witness:
  "0 \<le> calculate_similarity ''tide'' ''diet'' \<and> calculate_similarity ''tide'' ''diet'' \<le> 1
   \<and> calculate_similarity ''tide'' ''tide'' = 1
   \<and> lower ''Hey Jude'' = lower ''hey jude''
   \<and> calculate_similarity ''Hey Jude'' ''hey jude'' = 1
   \<and> calculate_similarity ''HEY Jude'' ''Let It Be'' = calculate_similarity ''hey jude'' ''LET IT BE''"
proof -
  note w = calculate_similarity_range_reflexive
             [of "''tide''" "''diet''" "''tide''" "''diet''"]
  note v = calculate_similarity_range_reflexive
             [of "''Hey Jude''" "''hey jude''" "''hey jude''" "''hey jude''"]
  note u = calculate_similarity_range_reflexive
             [of "''HEY Jude''" "''Let It Be''" "''hey jude''" "''LET IT BE''"]
  have l: "lower ''Hey Jude'' = lower ''hey jude''"
    by code_simp
  have l2: "lower ''HEY Jude'' = lower ''hey jude'' \<and> lower ''Let It Be'' = lower ''LET IT BE''"
    by code_simp
  from w have a: "0 \<le> calculate_similarity ''tide'' ''diet''"
    "calculate_similarity ''tide'' ''diet'' \<le> 1" "calculate_similarity ''tide'' ''tide'' = 1"
    by blast+
  from v l have b: "calculate_similarity ''Hey Jude'' ''hey jude'' = 1"
    by blast
  from u l2 have c: "calculate_similarity ''HEY Jude'' ''Let It Be''
                     = calculate_similarity ''hey jude'' ''LET IT BE''"
    by blast
  from a l b c show ?thesis by (intro conjI)
qed

end
